theory Spec2Isabelle
  imports Main "HOL-Library.Sublist"
begin

section \<open>Python text primitives\<close>

text \<open>
  A document is a Python \<open>str\<close>. It is modelled as a \<open>string\<close> in which every \<open>char\<close>
  stands for one Python character with code point below 256. The functions of this
  section are the \<open>str\<close> methods and operators that \<open>compiler.py\<close> uses, with the
  results Python gives.
\<close>

abbreviation bslash :: char where "bslash \<equiv> CHR 0x5C"
abbreviation newline :: char where "newline \<equiv> CHR 0x0A"
abbreviation quote :: char where "quote \<equiv> CHR 0x27"

text \<open>\<open>sub in s\<close>\<close>

primrec py_in :: "'a list \<Rightarrow> 'a list \<Rightarrow> bool" where
  "py_in sub [] = (sub = [])"
| "py_in sub (c # cs) = (prefix sub (c # cs) \<or> py_in sub cs)"

text \<open>\<open>s.find(sub)\<close>, with \<open>None\<close> for \<open>-1\<close>\<close>

primrec py_find :: "'a list \<Rightarrow> 'a list \<Rightarrow> nat option" where
  "py_find [] sub = (if sub = [] then Some 0 else None)"
| "py_find (c # cs) sub =
     (if prefix sub (c # cs) then Some 0 else map_option Suc (py_find cs sub))"

text \<open>\<open>s.rfind(sub)\<close>, with \<open>None\<close> for \<open>-1\<close>\<close>

primrec py_rfind :: "'a list \<Rightarrow> 'a list \<Rightarrow> nat option" where
  "py_rfind [] sub = (if sub = [] then Some 0 else None)"
| "py_rfind (c # cs) sub =
     (case py_rfind cs sub of
        Some i \<Rightarrow> Some (Suc i)
      | None \<Rightarrow> if prefix sub (c # cs) then Some 0 else None)"

text \<open>\<open>s.count(sub)\<close>: the number of non-overlapping occurrences, left to right\<close>

fun py_count :: "'a list \<Rightarrow> 'a list \<Rightarrow> nat" where
  "py_count [] sub = (if sub = [] then 1 else 0)"
| "py_count (c # cs) sub =
     (if sub = [] then Suc (Suc (length cs))
      else if prefix sub (c # cs) then Suc (py_count (drop (length sub - 1) cs) sub)
      else py_count cs sub)"

text \<open>\<open>s.replace(old, new)\<close>: every non-overlapping occurrence, left to right\<close>

fun py_replace :: "'a list \<Rightarrow> 'a list \<Rightarrow> 'a list \<Rightarrow> 'a list" where
  "py_replace [] old new = (if old = [] then new else [])"
| "py_replace (c # cs) old new =
     (if old = [] then new @ c # py_replace cs old new
      else if prefix old (c # cs) then new @ py_replace (drop (length old - 1) cs) old new
      else c # py_replace cs old new)"

text \<open>\<open>s.split(sep)\<close> for a one-character separator, and \<open>sep.join(parts)\<close>\<close>

primrec py_split :: "'a \<Rightarrow> 'a list \<Rightarrow> 'a list list" where
  "py_split sep [] = [[]]"
| "py_split sep (c # cs) =
     (if c = sep then [] # py_split sep cs
      else (case py_split sep cs of
              [] \<Rightarrow> [[c]]
            | l # ls \<Rightarrow> (c # l) # ls))"

fun py_join :: "'a list \<Rightarrow> 'a list list \<Rightarrow> 'a list" where
  "py_join sep [] = []"
| "py_join sep [l] = l"
| "py_join sep (l # ls) = l @ sep @ py_join sep ls"

text \<open>\<open>s * n\<close>\<close>

definition py_times :: "'a list \<Rightarrow> nat \<Rightarrow> 'a list" where
  "py_times s n = concat (replicate n s)"

text \<open>\<open>s[-n:]\<close> for positive \<open>n\<close>\<close>

definition py_last_chars :: "nat \<Rightarrow> 'a list \<Rightarrow> 'a list" where
  "py_last_chars n s = drop (length s - n) s"

text \<open>
  Character classes, on code points below 256: what \<open>str.strip()\<close> removes, what the
  pattern \<open>\w\<close> matches, and \<open>str.lower()\<close>.
\<close>

definition is_space :: "char \<Rightarrow> bool" where
  "is_space c = (let n = (of_char c :: nat) in
     (9 \<le> n \<and> n \<le> 13) \<or> (28 \<le> n \<and> n \<le> 32) \<or> n = 133 \<or> n = 160)"

definition is_word_char :: "char \<Rightarrow> bool" where
  "is_word_char c = (let n = (of_char c :: nat) in
     (48 \<le> n \<and> n \<le> 57) \<or> (65 \<le> n \<and> n \<le> 90) \<or> n = 95 \<or> (97 \<le> n \<and> n \<le> 122) \<or>
     n = 170 \<or> n = 178 \<or> n = 179 \<or> n = 181 \<or> n = 185 \<or> n = 186 \<or>
     (188 \<le> n \<and> n \<le> 190) \<or> (192 \<le> n \<and> n \<le> 214) \<or> (216 \<le> n \<and> n \<le> 246) \<or>
     (248 \<le> n \<and> n \<le> 255))"

definition lower_char :: "char \<Rightarrow> char" where
  "lower_char c = (let n = (of_char c :: nat) in
     if (65 \<le> n \<and> n \<le> 90) \<or> (192 \<le> n \<and> n \<le> 214) \<or> (216 \<le> n \<and> n \<le> 222)
     then char_of (n + 32) else c)"

definition py_lower :: "string \<Rightarrow> string" where
  "py_lower s = map lower_char s"

definition py_strip :: "string \<Rightarrow> string" where
  "py_strip s = rev (dropWhile is_space (rev (dropWhile is_space s)))"

text \<open>The decimal numeral an f-string writes for a non-negative integer.\<close>

definition digit_char :: "nat \<Rightarrow> char" where
  "digit_char d = char_of (48 + d)"

function str_nat :: "nat \<Rightarrow> string" where
  "str_nat n = (if n < 10 then [digit_char n] else str_nat (n div 10) @ [digit_char (n mod 10)])"
  by pat_completeness auto
termination
  by (relation "measure id") auto

declare str_nat.simps [simp del]

section \<open>Regular expressions of the repair engine\<close>

text \<open>
  Each fixed pattern of \<open>compiler.py\<close> is modelled by a function that computes what
  Python's \<open>re\<close> module returns for it.
\<close>

abbreviation end_document :: string where
  "end_document \<equiv> bslash # ''end{document}''"
abbreviation begin_document :: string where
  "begin_document \<equiv> bslash # ''begin{document}''"
abbreviation documentclass :: string where
  "documentclass \<equiv> bslash # ''documentclass''"
abbreviation begin_lstlisting :: string where
  "begin_lstlisting \<equiv> bslash # ''begin{lstlisting}''"
abbreviation end_lstlisting :: string where
  "end_lstlisting \<equiv> bslash # ''end{lstlisting}''"

definition begin_env :: "string \<Rightarrow> string" where
  "begin_env name = bslash # ''begin{'' @ name @ ''}''"

definition end_env :: "string \<Rightarrow> string" where
  "end_env name = bslash # ''end{'' @ name @ ''}''"

text \<open>
  A match of \<open>\\begin\{(\w+)\}\<close> (keyword \<open>begin\<close>) or \<open>\\end\{(\w+)\}\<close> (keyword
  \<open>end\<close>) at the head of the text: the group and the length of the match. The greedy
  \<open>\w+\<close> takes the longest run of word characters, and a shorter run is never followed
  by the closing brace.
\<close>

definition env_match_at :: "string \<Rightarrow> string \<Rightarrow> (string \<times> nat) option" where
  "env_match_at kw s =
     (let opener = bslash # kw @ ''{'' in
      if prefix opener s then
        (let rest = drop (length opener) s;
             w = takeWhile is_word_char rest
         in if w \<noteq> [] \<and> prefix ''}'' (dropWhile is_word_char rest)
            then Some (w, length opener + length w + 1) else None)
      else None)"

text \<open>\<open>[m.group(1) for m in re.finditer(pattern, s)]\<close>\<close>

fun re_finditer_env :: "string \<Rightarrow> string \<Rightarrow> string list" where
  "re_finditer_env kw [] = []"
| "re_finditer_env kw (c # cs) =
     (case env_match_at kw (c # cs) of
        Some (w, n) \<Rightarrow> w # re_finditer_env kw (drop (n - 1) cs)
      | None \<Rightarrow> re_finditer_env kw cs)"

text \<open>
  \<open>re.split(r'(\\begin\{lstlisting\}.*?\\end\{lstlisting\})', s, flags=re.DOTALL)\<close>:
  the text outside the code listings at the even indices, the listings (from a begin
  marker to the first end marker after it) at the odd ones.
\<close>

function re_split_lstlisting :: "string \<Rightarrow> string list" where
  "re_split_lstlisting s =
     (case py_find s begin_lstlisting of
        None \<Rightarrow> [s]
      | Some i \<Rightarrow>
          (case py_find (drop (i + length begin_lstlisting) s) end_lstlisting of
             None \<Rightarrow> [s]
           | Some j \<Rightarrow>
               take i s #
               take (length begin_lstlisting + j + length end_lstlisting) (drop i s) #
               re_split_lstlisting
                 (drop (i + (length begin_lstlisting + j + length end_lstlisting)) s)))"
  by pat_completeness auto
termination
proof (relation "measure length", goal_cases)
  case 1
  show ?case by simp
next
  case (2 s i j)
  have bound: "py_find t sub = Some k \<Longrightarrow> k + length sub \<le> length t"
    for t sub :: string and k
  proof (induction t arbitrary: k)
    case Nil
    then show ?case by (simp split: if_splits)
  next
    case (Cons c cs)
    then show ?case
      by (auto split: if_splits dest: prefix_length_le)
  qed
  from bound [OF 2(1)] show ?case by simp
qed

declare re_split_lstlisting.simps [simp del]

text \<open>The parts with an even index: the loop's \<open>if i % 2 == 0\<close>.\<close>

fun even_parts :: "'a list \<Rightarrow> 'a list" where
  "even_parts [] = []"
| "even_parts [x] = [x]"
| "even_parts (x # y # zs) = x # even_parts zs"

text \<open>
  The lazy group \<open>(.+?)\<close> followed by a literal: at least one character other than a
  newline, as few as possible.
\<close>

primrec lazy_group :: "string \<Rightarrow> string \<Rightarrow> string option" where
  "lazy_group suf [] = None"
| "lazy_group suf (c # cs) =
     (if c = newline then None
      else if prefix suf cs then Some [c]
      else map_option ((#) c) (lazy_group suf cs))"

text \<open>
  \<open>re.search(pre (.+?) suf, s)\<close> for literal \<open>pre\<close> and \<open>suf\<close>: group 1 of the leftmost
  match, \<open>None\<close> when there is no match.
\<close>

primrec re_search_group :: "string \<Rightarrow> string \<Rightarrow> string \<Rightarrow> string option" where
  "re_search_group pre suf [] = None"
| "re_search_group pre suf (c # cs) =
     (if prefix pre (c # cs) then
        (case lazy_group suf (drop (length pre) (c # cs)) of
           Some g \<Rightarrow> Some g
         | None \<Rightarrow> re_search_group pre suf cs)
      else re_search_group pre suf cs)"

text \<open>\<open>re.search(r"File `(.+?)\.sty' not found", error_log)\<close>\<close>

definition pkg_match :: "string \<Rightarrow> string option" where
  "pkg_match error_log =
     re_search_group ''File `'' (''.sty'' @ quote # '' not found'') error_log"

text \<open>\<open>re.search(r"Environment (.+?) undefined", error_log)\<close>\<close>

definition env_match :: "string \<Rightarrow> string option" where
  "env_match error_log = re_search_group ''Environment '' '' undefined'' error_log"

section \<open>LatexAutoFixer\<close>

text \<open>
  Every rule maps the document to the new document and the list of fix records.
\<close>

text \<open>
  \<open>fix_truncated_document\<close>. The first loop appends every begin marker's name to
  \<open>open_envs\<close>; the second one goes through the end markers and pops \<open>open_envs\<close>
  when the name equals its last element.
\<close>

definition pop_matching :: "string list \<Rightarrow> string \<Rightarrow> string list" where
  "pop_matching open_envs name =
     (if open_envs \<noteq> [] \<and> name = last open_envs then butlast open_envs else open_envs)"

definition open_envs_of :: "string \<Rightarrow> string list" where
  "open_envs_of code =
     foldl pop_matching (re_finditer_env ''begin'' code) (re_finditer_env ''end'' code)"

definition fix_truncated_document :: "string \<Rightarrow> string \<times> string list" where
  "fix_truncated_document code =
     (if \<not> py_in end_document code then
        (let closing = rev (open_envs_of code) in
         (foldl (\<lambda>c env. c @ newline # end_env env) code closing @ newline # end_document,
          map (\<lambda>env. ''Closed unclosed environment: '' @ env) closing @
            [''Added missing '' @ end_document]))
      else (code, []))"

text \<open>
  The rules for the heavy blocks (\<open>fix_lstlisting_issues\<close>, \<open>fix_tabularx_issues\<close>,
  \<open>fix_description_issues\<close>, \<open>fix_multicol_issues\<close>) share one shape: count the begin
  and the end markers of a kind and append the missing end markers.
\<close>

definition close_unclosed :: "string \<Rightarrow> string \<Rightarrow> string \<times> string list" where
  "close_unclosed kind code =
     (let begin_count = py_count code (begin_env kind);
          end_count = py_count code (end_env kind)
      in if begin_count > end_count then
           (code @ py_times (newline # end_env kind) (begin_count - end_count),
            [''Closed '' @ str_nat (begin_count - end_count) @ '' unclosed '' @ kind @
             '' environment(s)''])
         else (code, []))"

definition fix_lstlisting_issues :: "string \<Rightarrow> string \<times> string list" where
  "fix_lstlisting_issues code = close_unclosed ''lstlisting'' code"

definition fix_tabularx_issues :: "string \<Rightarrow> string \<times> string list" where
  "fix_tabularx_issues code =
     (case close_unclosed ''tabularx'' code of
        (code1, fixes1) \<Rightarrow>
          (case close_unclosed ''longtable'' code1 of
             (code2, fixes2) \<Rightarrow> (code2, fixes1 @ fixes2)))"

definition fix_description_issues :: "string \<Rightarrow> string \<times> string list" where
  "fix_description_issues code = close_unclosed ''description'' code"

definition fix_multicol_issues :: "string \<Rightarrow> string \<times> string list" where
  "fix_multicol_issues code = close_unclosed ''multicols'' code"

text \<open>
  \<open>fix_brace_imbalance\<close>. The braces are counted in the parts outside the code
  listings; the excess closing braces are removed from the whole text, the last one
  first.
\<close>

definition total_open :: "string \<Rightarrow> nat" where
  "total_open code =
     sum_list (map (\<lambda>part. py_count part ''{'') (even_parts (re_split_lstlisting code)))"

definition total_close :: "string \<Rightarrow> nat" where
  "total_close code =
     sum_list (map (\<lambda>part. py_count part ''}'') (even_parts (re_split_lstlisting code)))"

definition remove_last_brace :: "string \<Rightarrow> string" where
  "remove_last_brace code =
     (case py_rfind code ''}'' of
        Some last_idx \<Rightarrow> take last_idx code @ drop (Suc last_idx) code
      | None \<Rightarrow> code)"

definition fix_brace_imbalance :: "string \<Rightarrow> string \<times> string list" where
  "fix_brace_imbalance code =
     (if total_open code > total_close code then
        (let diff = total_open code - total_close code in
         (if py_in end_document code
          then py_replace code end_document (py_times ''}'' diff @ newline # end_document)
          else code @ py_times ''}'' diff,
          [''Added '' @ str_nat diff @ '' missing closing brace(s)'']))
      else if total_close code > total_open code then
        (let diff = total_close code - total_open code in
         ((remove_last_brace ^^ diff) code,
          [''Removed '' @ str_nat diff @ '' extra closing brace(s)'']))
      else (code, []))"

text \<open>\<open>ensure_document_structure\<close>\<close>

definition preamble_commands :: "string list" where
  "preamble_commands = map ((#) bslash)
     [''documentclass'', ''usepackage'', ''title'', ''author'', ''date'', ''newcommand'',
      ''definecolor'', ''lstdefinestyle'', ''pagestyle'', ''fancyhf'', ''rhead'', ''lhead'',
      ''rfoot'']"

definition is_preamble_line :: "string \<Rightarrow> bool" where
  "is_preamble_line line = list_ex (\<lambda>cmd. prefix cmd (py_strip line)) preamble_commands"

definition insert_idx_of :: "string list \<Rightarrow> nat" where
  "insert_idx_of lines =
     foldl (\<lambda>insert_idx (i, line). if is_preamble_line line then i + 1 else insert_idx)
       0 (enumerate 0 lines)"

definition ensure_document_structure :: "string \<Rightarrow> string \<times> string list" where
  "ensure_document_structure code =
     (let (code1, fixes1) =
            (if \<not> py_in documentclass code
             then (documentclass @ ''[12pt]{article}'' @ newline # code,
                   [''Added missing '' @ documentclass])
             else (code, []))
      in if \<not> py_in begin_document code1 then
           (let lines = py_split newline code1;
                insert_idx = insert_idx_of lines
            in (py_join [newline] (take insert_idx lines @ begin_document # drop insert_idx lines),
                fixes1 @ [''Added missing '' @ begin_document]))
         else (code1, fixes1))"

text \<open>
  \<open>fix_package_not_found\<close> builds its pattern from the package name without escaping
  it: \<open>(\\usepackage(?:\[.*?\])?\{NAME\})\<close>. When the name has no special character the
  pattern is modelled by the functions below. The name stands inside the group that
  the pattern opens before it and closes after it. When the only special characters of
  the name are parentheses, the pattern compiles exactly when, read from depth 1, no
  closing parenthesis of the name meets depth 0 and the depth after the name is 1 (the
  names \<open>)(\<close> and \<open>()\<close> compile, \<open>a(b\<close> and \<open>a)b\<close> do not); when it does not compile,
  \<open>re.search\<close> raises \<open>re.error\<close>. For any other name the result of Python's \<open>re\<close>
  module is a parameter of the model: \<open>Inl ReError\<close> when the pattern does not compile,
  \<open>Inr None\<close> when nothing matches, \<open>Inr (Some code')\<close> with the result of \<open>re.sub\<close>
  otherwise.
\<close>

datatype error = ReError

type_synonym re_engine = "string \<Rightarrow> string \<Rightarrow> error + string option"

definition re_special :: "char \<Rightarrow> bool" where
  "re_special c = (c \<in> set ''.^$*+?{}[]|()'' \<or> c = bslash)"

definition re_plain :: "string \<Rightarrow> bool" where
  "re_plain name = (\<not> list_ex re_special name)"

primrec paren_depth :: "string \<Rightarrow> nat \<Rightarrow> nat option" where
  "paren_depth [] d = Some d"
| "paren_depth (c # cs) d =
     (if c = CHR ''('' then paren_depth cs (Suc d)
      else if c = CHR '')'' then (case d of 0 \<Rightarrow> None | Suc d' \<Rightarrow> paren_depth cs d')
      else paren_depth cs d)"

definition re_unbalanced :: "string \<Rightarrow> bool" where
  "re_unbalanced name =
     (list_all (\<lambda>c. \<not> re_special c \<or> c = CHR ''('' \<or> c = CHR '')'') name \<and>
      paren_depth name 1 \<noteq> Some 1)"

text \<open>
  The lazy \<open>.*?\<close> inside the optional bracket, then \<open>\]\<close> and the rest of the pattern:
  the number of characters matched.
\<close>

primrec lazy_bracket :: "string \<Rightarrow> string \<Rightarrow> nat option" where
  "lazy_bracket rest_pat [] = None"
| "lazy_bracket rest_pat (c # cs) =
     (if c = CHR '']'' \<and> prefix rest_pat cs then Some (Suc (length rest_pat))
      else if c = newline then None
      else map_option Suc (lazy_bracket rest_pat cs))"

definition usepackage_match_at :: "string \<Rightarrow> string \<Rightarrow> nat option" where
  "usepackage_match_at name s =
     (let cmd = bslash # ''usepackage''; rest_pat = ''{'' @ name @ ''}'' in
      if prefix cmd s then
        (let rest = drop (length cmd) s in
         if prefix ''['' rest
         then map_option (\<lambda>n. length cmd + 1 + n) (lazy_bracket rest_pat (tl rest))
         else if prefix rest_pat rest then Some (length cmd + length rest_pat)
         else None)
      else None)"

primrec usepackage_search :: "string \<Rightarrow> string \<Rightarrow> bool" where
  "usepackage_search name [] = False"
| "usepackage_search name (c # cs) =
     (usepackage_match_at name (c # cs) \<noteq> None \<or> usepackage_search name cs)"

fun usepackage_sub :: "string \<Rightarrow> string \<Rightarrow> string" where
  "usepackage_sub name [] = []"
| "usepackage_sub name (c # cs) =
     (case usepackage_match_at name (c # cs) of
        Some n \<Rightarrow> ''% '' @ take n (c # cs) @ ''  % Package not available'' @
                  usepackage_sub name (drop (n - 1) cs)
      | None \<Rightarrow> c # usepackage_sub name cs)"

definition usepackage_regex :: "re_engine \<Rightarrow> string \<Rightarrow> string \<Rightarrow> error + string option" where
  "usepackage_regex re name code =
     (if re_plain name then
        Inr (if usepackage_search name code then Some (usepackage_sub name code) else None)
      else if re_unbalanced name then Inl ReError
      else re name code)"

definition fix_package_not_found ::
  "re_engine \<Rightarrow> string \<Rightarrow> string \<Rightarrow> error + string \<times> string list" where
  "fix_package_not_found re code package_name =
     (case usepackage_regex re package_name code of
        Inl e \<Rightarrow> Inl e
      | Inr None \<Rightarrow> Inr (code, [])
      | Inr (Some code') \<Rightarrow>
          Inr (code', [''Commented out unavailable package: '' @ package_name]))"

definition fix_undefined_environment :: "string \<Rightarrow> string \<Rightarrow> string \<times> string list" where
  "fix_undefined_environment code env_name =
     (if py_in (begin_env env_name) code then
        (py_replace
           (py_replace code (begin_env env_name)
              (''% Undefined environment: '' @ env_name @ newline # begin_env ''verbatim''))
           (end_env env_name)
           (end_env ''verbatim'' @ newline # ''% End: '' @ env_name),
         [''Replaced undefined environment: '' @ env_name])
      else (code, []))"

text \<open>
  \<open>comprehensive_fix\<close>: steps 1 to 7 feed each rule's document into the next and
  collect the fix records; steps 8 and 9 run when the error log matches.
\<close>

definition then_fix ::
  "string \<times> string list \<Rightarrow> (string \<Rightarrow> string \<times> string list) \<Rightarrow> string \<times> string list" where
  "then_fix acc rule =
     (case acc of (code, all_fixes) \<Rightarrow>
        (case rule code of (code', fixes) \<Rightarrow> (code', all_fixes @ fixes)))"

definition structural_fix :: "string \<Rightarrow> string \<times> string list" where
  "structural_fix code =
     then_fix (then_fix (then_fix (then_fix (then_fix (then_fix (then_fix (code, [])
       ensure_document_structure)
       fix_lstlisting_issues)
       fix_tabularx_issues)
       fix_description_issues)
       fix_multicol_issues)
       fix_brace_imbalance)
       fix_truncated_document"

definition comprehensive_fix ::
  "re_engine \<Rightarrow> string \<Rightarrow> string \<Rightarrow> error + string \<times> string list" where
  "comprehensive_fix re code error_log =
     (case structural_fix code of (code7, fixes7) \<Rightarrow>
        (case (case pkg_match error_log of
                 None \<Rightarrow> Inr (code7, [])
               | Some pkg_name \<Rightarrow> fix_package_not_found re code7 pkg_name) of
           Inl e \<Rightarrow> Inl e
         | Inr (code8, fixes8) \<Rightarrow>
             (case env_match error_log of
                None \<Rightarrow> Inr (code8, fixes7 @ fixes8)
              | Some env_name \<Rightarrow>
                  (case fix_undefined_environment code8 env_name of
                     (code9, fixes9) \<Rightarrow> Inr (code9, fixes7 @ fixes8 @ fixes9)))))"

section \<open>CompilationWorker\<close>

text \<open>
  What the world outside the program does at one call of \<open>_compile\<close>: an exception
  other than a timeout (\<open>Raised\<close>, with the text of the exception), no \<open>pdflatex\<close> on
  the path (\<open>Missing\<close>), a timeout (\<open>TimedOut\<close>), or a completed run that leaves a
  log file (its content, \<open>None\<close> when there is no file) and possibly an output file.
\<close>

datatype toolchain =
    Raised string
  | Missing
  | TimedOut
  | Ran (log_file: "string option") (pdf_exists: bool)

record worker =
  latex_code :: string
  output_name :: string
  autofix :: bool
  quick_mode :: bool
  draft_mode :: bool
  temp_dir :: string

definition MAX_FIX_ATTEMPTS :: nat where
  "MAX_FIX_ATTEMPTS = 5"

definition pdf_file :: "worker \<Rightarrow> string" where
  "pdf_file w = temp_dir w @ ''/'' @ output_name w @ ''.pdf''"

text \<open>\<open>_extract_error\<close>, from the content of the log file.\<close>

definition is_error_line :: "string \<Rightarrow> bool" where
  "is_error_line line =
     (prefix ''!'' line \<or> py_in ''Error'' line \<or> py_in ''error'' (py_lower line))"

definition extract_error :: "string option \<Rightarrow> string" where
  "extract_error log =
     (let full_log = (case log of None \<Rightarrow> [] | Some content \<Rightarrow> content);
          error_lines = take 15 (map py_strip (filter is_error_line (py_split newline full_log)))
      in if error_lines \<noteq> [] then
           py_join [newline] error_lines @
           newline # newline # ''--- Log excerpt ---'' @ newline # py_last_chars 3000 full_log
         else if full_log \<noteq> [] then py_last_chars 3000 full_log
         else ''Unknown error - check log file'')"

text \<open>\<open>_compile\<close>: the triple (success, pdf path, error).\<close>

definition compile :: "worker \<Rightarrow> toolchain \<Rightarrow> bool \<times> string \<times> string" where
  "compile w t =
     (case t of
        Raised msg \<Rightarrow> (False, [], ''Error: '' @ msg)
      | Missing \<Rightarrow> (False, [], ''pdflatex not found. Install TeX Live or MiKTeX.'')
      | TimedOut \<Rightarrow> (False, [], ''Compilation timed out.'')
      | Ran log pdf \<Rightarrow>
          (case (if draft_mode w then log else None) of
             Some log_content \<Rightarrow>
               if py_in ''No pages of output'' log_content \<or>
                  \<not> py_in ''Output written'' log_content
               then (True, [], [])
               else if py_in ''!'' log_content then (False, [], extract_error log)
               else (True, [], [])
           | None \<Rightarrow>
               if pdf then (True, pdf_file w, [])
               else (False, [], extract_error log)))"

text \<open>
  \<open>run\<close>. The trace lists, in order, the signals that \<open>run\<close> emits, its calls of
  \<open>_compile\<close> (with the document passed) and an exception that leaves \<open>run\<close>. The
  world gives the outcome of the toolchain for the attempt number and the document.
  The \<open>progress\<close> and \<open>page_ready\<close> signals that \<open>_compile\<close> emits while the toolchain
  runs are not part of the trace.
\<close>

datatype event =
    Progress string
  | Finished bool string string "string list"
  | Compile string
  | Raise error

type_synonym world = "nat \<Rightarrow> string \<Rightarrow> toolchain"

primrec attempts ::
  "re_engine \<Rightarrow> world \<Rightarrow> worker \<Rightarrow> nat \<Rightarrow> nat \<Rightarrow> nat \<Rightarrow> string \<Rightarrow> string list \<Rightarrow> event list" where
  "attempts re wd w mx 0 attempt current_code all_fixes = []"
| "attempts re wd w mx (Suc n) attempt current_code all_fixes =
     Progress (''Compiling... (attempt '' @ str_nat (attempt + 1) @ '')'') #
     Compile current_code #
     (case compile w (wd attempt current_code) of
        (True, pdf_path, err) \<Rightarrow> [Progress ''Done!'', Finished True pdf_path [] all_fixes]
      | (False, pdf_path, err) \<Rightarrow>
          if \<not> autofix w \<or> attempt \<ge> mx then [Finished False [] err all_fixes]
          else
            Progress (''Analyzing errors (attempt '' @ str_nat (attempt + 1) @ '')...'') #
            (case comprehensive_fix re current_code err of
               Inl e \<Rightarrow> [Raise e]
             | Inr (fixed_code, fixes) \<Rightarrow>
                 if fixed_code = current_code \<or> fixes = []
                 then [Finished False [] err all_fixes]
                 else
                   Progress (''Applied '' @ str_nat (length fixes) @ '' fix(es), retrying...'') #
                   attempts re wd w mx n (attempt + 1) fixed_code (all_fixes @ fixes)))"

definition run_with :: "nat \<Rightarrow> re_engine \<Rightarrow> world \<Rightarrow> worker \<Rightarrow> event list" where
  "run_with mx re wd w =
     (if autofix w then
        Progress ''Pre-checking document structure...'' #
        (case comprehensive_fix re (latex_code w) [] of
           Inl e \<Rightarrow> [Raise e]
         | Inr (current_code, fixes) \<Rightarrow>
             (if fixes \<noteq> []
              then [Progress (''Applied '' @ str_nat (length fixes) @ '' pre-compilation fix(es)'')]
              else []) @
             attempts re wd w mx (mx + 1) 0 current_code fixes)
      else attempts re wd w mx (mx + 1) 0 (latex_code w) [])"

definition run :: "re_engine \<Rightarrow> world \<Rightarrow> worker \<Rightarrow> event list" where
  "run re wd w = run_with MAX_FIX_ATTEMPTS re wd w"

text \<open>Observations on a trace.\<close>

definition compile_calls :: "event list \<Rightarrow> string list" where
  "compile_calls tr = concat (map (\<lambda>e. case e of Compile d \<Rightarrow> [d] | _ \<Rightarrow> []) tr)"

definition finished_events :: "event list \<Rightarrow> event list" where
  "finished_events tr = filter (\<lambda>e. case e of Finished s p d f \<Rightarrow> True | _ \<Rightarrow> False) tr"

section \<open>LatexCompiler\<close>

record latex_compiler =
  lc_autofix :: bool
  lc_quick_mode :: bool
  lc_draft_mode :: bool
  lc_worker :: "worker option"
  last_pdf_path :: "string option"

definition init_compiler :: "bool \<Rightarrow> latex_compiler" where
  "init_compiler af =
     \<lparr>lc_autofix = af, lc_quick_mode = False, lc_draft_mode = False, lc_worker = None,
      last_pdf_path = None\<rparr>"

definition start_compile :: "latex_compiler \<Rightarrow> string \<Rightarrow> string \<Rightarrow> string \<Rightarrow> latex_compiler" where
  "start_compile c cache_dir code name =
     c\<lparr>lc_worker := Some \<lparr>latex_code = code, output_name = name, autofix = lc_autofix c,
                           quick_mode = lc_quick_mode c, draft_mode = lc_draft_mode c,
                           temp_dir = cache_dir\<rparr>\<rparr>"

definition on_finished ::
  "latex_compiler \<Rightarrow> bool \<Rightarrow> string \<Rightarrow> string \<Rightarrow> string list \<Rightarrow> latex_compiler" where
  "on_finished c success pdf_path err fixes =
     (if success then c\<lparr>last_pdf_path := Some pdf_path\<rparr> else c)"

definition get_last_pdf_path :: "latex_compiler \<Rightarrow> string option" where
  "get_last_pdf_path c = last_pdf_path c"

text \<open>
  The signal \<open>finished\<close> of the worker is connected to \<open>_on_finished\<close>: the facade
  after the signals of a trace have been delivered.
\<close>

definition deliver :: "latex_compiler \<Rightarrow> event \<Rightarrow> latex_compiler" where
  "deliver c e =
     (case e of Finished success pdf_path err fixes \<Rightarrow> on_finished c success pdf_path err fixes
      | _ \<Rightarrow> c)"

section \<open>Predicates and sample inputs\<close>

text \<open>An error log that matches neither pattern of steps 8 and 9.\<close>

definition no_rule_matches :: "string \<Rightarrow> bool" where
  "no_rule_matches error_log = (pkg_match error_log = None \<and> env_match error_log = None)"

text \<open>
  The names that the diagnostic gives, if any, are ordinary: the package name has no
  special character of regular expressions, and the environment name has no backslash,
  is not \<open>document\<close> and does not begin with \<open>document}\<close>.
\<close>

definition diagnostic_names_plain :: "string \<Rightarrow> bool" where
  "diagnostic_names_plain error_log =
     ((case pkg_match error_log of None \<Rightarrow> True | Some pkg_name \<Rightarrow> re_plain pkg_name) \<and>
      (case env_match error_log of
         None \<Rightarrow> True
       | Some env_name \<Rightarrow>
           bslash \<notin> set env_name \<and> env_name \<noteq> ''document'' \<and>
           \<not> prefix ''document}'' env_name))"

text \<open>No attempt succeeds and no diagnostic matches a diagnostic-driven rule.\<close>

definition all_attempts_fail_unmatched :: "worker \<Rightarrow> world \<Rightarrow> bool" where
  "all_attempts_fail_unmatched w wd =
     (\<forall>k d. \<not> fst (compile w (wd k d)) \<and> no_rule_matches (snd (snd (compile w (wd k d)))))"

definition always_missing :: world where
  "always_missing k d = Missing"

definition no_match_engine :: re_engine where
  "no_match_engine name code = Inr None"

definition sample_doc :: string where
  "sample_doc = documentclass @ ''{article}'' @ begin_document @ ''x'' @ end_document"

definition sample_worker :: worker where
  "sample_worker =
     \<lparr>latex_code = sample_doc, output_name = ''output'', autofix = True,
      quick_mode = False, draft_mode = False, temp_dir = ''/tmp/latex_cache_0''\<rparr>"


definition missing_message :: string where
  "missing_message = ''pdflatex not found. Install TeX Live or MiKTeX.''"

text \<open>A document with unbalanced braces and the end marker twice.\<close>

definition two_markers_doc :: string where
  "two_markers_doc =
     documentclass @ ''{article}'' @ begin_document @ ''{'' @ end_document @ end_document"

definition two_markers_worker :: worker where
  "two_markers_worker = sample_worker\<lparr>latex_code := two_markers_doc\<rparr>"

text \<open>
  A document that loads the package \<open>a(b\<close>, and the log of the toolchain that cannot
  find it.
\<close>

definition bad_package_doc :: string where
  "bad_package_doc =
     documentclass @ ''{article}'' @ newline # bslash # ''usepackage{a(b}'' @ newline #
     begin_document @ ''x'' @ end_document"

definition bad_package_log :: string where
  "bad_package_log = ''! LaTeX Error: File `a(b.sty'' @ quote # '' not found.''"

definition bad_package_world :: world where
  "bad_package_world k d = Ran (Some bad_package_log) False"

definition bad_package_worker :: worker where
  "bad_package_worker = sample_worker\<lparr>latex_code := bad_package_doc\<rparr>"

definition undefined_document_log :: string where
  "undefined_document_log = ''Environment document undefined''"

text \<open>
  A document with a package and an environment that the toolchain does not know, and
  the log that reports both.
\<close>

definition two_rules_doc :: string where
  "two_rules_doc =
     documentclass @ ''{article}'' @ newline # bslash # ''usepackage{foo}'' @ newline #
     begin_document @ begin_env ''theorem'' @ ''x'' @ end_env ''theorem'' @ end_document"

definition two_rules_log :: string where
  "two_rules_log =
     ''! LaTeX Error: File `foo.sty'' @ quote # '' not found.'' @ newline #
     ''! LaTeX Error: Environment theorem undefined.''"

text \<open>
  A log whose environment name has a backslash, with a document that opens that
  environment.
\<close>

definition backslash_env_log :: string where
  "backslash_env_log = ''Environment x'' @ bslash # ''end{document undefined''"

definition backslash_env_doc :: string where
  "backslash_env_doc =
     documentclass @ ''{article}'' @ begin_document @ bslash # ''begin{x'' @ end_document @ ''}''"

text \<open>
  A log whose environment name begins with \<open>document}\<close>, and a document with an empty
  body.
\<close>

definition exotic_env_log :: string where
  "exotic_env_log = ''Environment document}'' @ bslash # ''end{document undefined''"

definition empty_body_doc :: string where
  "empty_body_doc = documentclass @ ''{article}'' @ begin_document @ end_document"

text \<open>A truncated document: a block opened and closed, then a block left open.\<close>

definition reopened_doc :: string where
  "reopened_doc = begin_env ''center'' @ ''x'' @ end_env ''center'' @ begin_env ''itemize''"

text \<open>A document with one opening brace too many and one end marker.\<close>

definition one_open_doc :: string where
  "one_open_doc = documentclass @ ''{article}'' @ begin_document @ ''{{x}'' @ end_document"

text \<open>A document whose last closing brace ends a code listing.\<close>

definition listing_last_doc :: string where
  "listing_last_doc = ''}'' @ begin_lstlisting @ ''{'' @ end_lstlisting"

text \<open>The begin marker of a code listing without its closing brace.\<close>

abbreviation lst_open :: string where
  "lst_open \<equiv> bslash # ''begin{lstlisting''"

section \<open>The truncation fix in the words of the specification\<close>

text \<open>
  The specification describes the reconstruction of the open blocks as one scan of
  all begin and end markers in document order with a LIFO stack, each end marker
  paired with the most recently unmatched begin marker of the same kind. This is that
  description, to compare \<open>open_envs_of\<close> with.
\<close>

datatype marker = Begin string | End string

fun re_finditer_markers :: "string \<Rightarrow> marker list" where
  "re_finditer_markers [] = []"
| "re_finditer_markers (c # cs) =
     (case env_match_at ''begin'' (c # cs) of
        Some (w, n) \<Rightarrow> Begin w # re_finditer_markers (drop (n - 1) cs)
      | None \<Rightarrow>
          (case env_match_at ''end'' (c # cs) of
             Some (w, n) \<Rightarrow> End w # re_finditer_markers (drop (n - 1) cs)
           | None \<Rightarrow> re_finditer_markers cs))"

definition remove_last_occurrence :: "string \<Rightarrow> string list \<Rightarrow> string list" where
  "remove_last_occurrence name stack = rev (remove1 name (rev stack))"

fun spec_scan :: "string list \<Rightarrow> marker \<Rightarrow> string list" where
  "spec_scan stack (Begin name) = stack @ [name]"
| "spec_scan stack (End name) = remove_last_occurrence name stack"

definition spec_open_blocks :: "string \<Rightarrow> string list" where
  "spec_open_blocks code = foldl spec_scan [] (re_finditer_markers code)"

section \<open>Traces\<close>

lemma compile_calls_simps [simp]:
  "compile_calls [] = []"
  "compile_calls (Progress m # tr) = compile_calls tr"
  "compile_calls (Compile d # tr) = d # compile_calls tr"
  "compile_calls (Finished s p e f # tr) = compile_calls tr"
  "compile_calls (Raise x # tr) = compile_calls tr"
  "compile_calls (tr @ tr') = compile_calls tr @ compile_calls tr'"
  by (simp_all add: compile_calls_def)

lemma finished_events_simps [simp]:
  "finished_events [] = []"
  "finished_events (Progress m # tr) = finished_events tr"
  "finished_events (Compile d # tr) = finished_events tr"
  "finished_events (Finished s p e f # tr) = Finished s p e f # finished_events tr"
  "finished_events (Raise x # tr) = finished_events tr"
  "finished_events (tr @ tr') = finished_events tr @ finished_events tr'"
  by (simp_all add: finished_events_def)

lemma no_rule_matches_empty: "no_rule_matches []"
  by (simp add: no_rule_matches_def pkg_match_def env_match_def)

lemma no_rule_matches_missing: "no_rule_matches missing_message"
  unfolding no_rule_matches_def missing_message_def by code_simp

lemma comprehensive_fix_unmatched:
  "no_rule_matches error_log \<Longrightarrow>
     comprehensive_fix re code error_log = Inr (structural_fix code)"
  by (simp add: comprehensive_fix_def no_rule_matches_def split: prod.splits)

lemma compile_missing: "compile w Missing = (False, [], missing_message)"
  by (simp add: compile_def missing_message_def)

lemma always_missing_fails: "all_attempts_fail_unmatched w always_missing"
  by (simp add: all_attempts_fail_unmatched_def always_missing_def compile_missing
      no_rule_matches_missing)

lemma structural_fix_sample: "structural_fix sample_doc = (sample_doc, [])"
  unfolding sample_doc_def by code_simp

section \<open>The orchestrator\<close>

lemma attempts_calls_le:
  "length (compile_calls (attempts re wd w mx n k d acc)) \<le> n"
proof (induction n arbitrary: k d acc)
  case 0
  show ?case by simp
next
  case (Suc n)
  show ?case
    using Suc.IH
    by (auto split: prod.splits sum.splits bool.splits)
qed

lemma attempts_fail:
  assumes "all_attempts_fail_unmatched w wd" and "mx < k + n" and "0 < n"
  shows "\<exists>err fs. finished_events (attempts re wd w mx n k d acc) = [Finished False [] err fs]
           \<and> last (attempts re wd w mx n k d acc) = Finished False [] err fs"
  using assms(2,3)
proof (induction n arbitrary: k d acc)
  case 0
  then show ?case by simp
next
  case (Suc n)
  obtain p err where c: "compile w (wd k d) = (False, p, err)" and nm: "no_rule_matches err"
    using assms(1) unfolding all_attempts_fail_unmatched_def
    by (metis fst_conv snd_conv prod.collapse)
  show ?case
  proof (cases "\<not> autofix w \<or> mx \<le> k")
    case True
    then show ?thesis using c by auto
  next
    case False
    then have lt: "mx < Suc k + n" and pos: "0 < n" using Suc.prems by simp_all
    obtain d' fs where sf: "structural_fix d = (d', fs)" by (cases "structural_fix d")
    show ?thesis
    proof (cases "d' = d \<or> fs = []")
      case True
      then show ?thesis using c False sf comprehensive_fix_unmatched [OF nm] by auto
    next
      case stop: False
      from Suc.IH [OF lt pos, of d' "acc @ fs"] obtain e2 f2 where
        ih: "finished_events (attempts re wd w mx n (Suc k) d' (acc @ fs)) = [Finished False [] e2 f2]"
          "last (attempts re wd w mx n (Suc k) d' (acc @ fs)) = Finished False [] e2 f2" by blast
      have ne: "attempts re wd w mx n (Suc k) d' (acc @ fs) \<noteq> []" using ih(1) by auto
      show ?thesis using c False sf stop comprehensive_fix_unmatched [OF nm] ih ne by auto
    qed
  qed
qed

lemma run_with_calls_le: "length (compile_calls (run_with mx re wd w)) \<le> mx + 1"
  using attempts_calls_le [of re wd w mx "mx + 1" 0]
  by (auto simp: run_with_def split: sum.splits)

text \<open>
  C1. When no attempt succeeds and no diagnostic matches a diagnostic-driven rule, \<open>run\<close>
  calls \<open>_compile\<close> at most \<open>MAX_FIX_ATTEMPTS + 1\<close> times (at most 6 times with the
  bound 5 of the class), and the trace ends with the one \<open>finished\<close> signal it holds,
  which reports failure.
\<close>

theorem bounded_retries:
  assumes "all_attempts_fail_unmatched w wd"
  shows "length (compile_calls (run_with mx re wd w)) \<le> mx + 1 \<and>
         length (compile_calls (run re wd w)) \<le> 6 \<and>
         (\<exists>err fs. finished_events (run_with mx re wd w) = [Finished False [] err fs] \<and>
                    last (run_with mx re wd w) = Finished False [] err fs)"
proof -
  have six: "length (compile_calls (run re wd w)) \<le> 6"
    using run_with_calls_le [of MAX_FIX_ATTEMPTS re wd w]
    by (simp add: run_def MAX_FIX_ATTEMPTS_def)
  have fin: "\<exists>err fs. finished_events (run_with mx re wd w) = [Finished False [] err fs] \<and>
                       last (run_with mx re wd w) = Finished False [] err fs"
  proof (cases "autofix w")
    case False
    then show ?thesis
      using attempts_fail [OF assms, of mx 0 "mx + 1" re "latex_code w" "[]"]
      by (simp add: run_with_def)
  next
    case True
    obtain d0 f0 where sf: "structural_fix (latex_code w) = (d0, f0)"
      by (cases "structural_fix (latex_code w)")
    from attempts_fail [OF assms, of mx 0 "mx + 1" re d0 f0] obtain err fs where
      a: "finished_events (attempts re wd w mx (mx + 1) 0 d0 f0) = [Finished False [] err fs]"
         "last (attempts re wd w mx (mx + 1) 0 d0 f0) = Finished False [] err fs"
      by auto
    have ne: "attempts re wd w mx (mx + 1) 0 d0 f0 \<noteq> []" using a(1) by auto
    have cf: "comprehensive_fix re (latex_code w) [] = Inr (d0, f0)"
      using comprehensive_fix_unmatched [OF no_rule_matches_empty] sf by simp
    show ?thesis
      using True a ne cf by (simp add: run_with_def)
  qed
  show ?thesis using run_with_calls_le six fin by blast
qed

theorem bounded_retries_witness:
  "all_attempts_fail_unmatched sample_worker always_missing \<and>
   length (compile_calls (run no_match_engine always_missing sample_worker)) \<le> 6 \<and>
   length (compile_calls (run_with 5 no_match_engine always_missing sample_worker)) \<le> 5 + 1"
  using bounded_retries [where w = sample_worker and wd = always_missing and mx = 5
      and re = no_match_engine, OF always_missing_fails]
    always_missing_fails [of sample_worker]
  by simp

text \<open>
  C2. An attempt fails and the repair engine, applied to the attempt's document and
  diagnostic, returns the same document or no fix record: the failure is emitted at
  once, with the fix records collected so far, and \<open>_compile\<close> is not called again,
  whatever remains of the attempt budget.
\<close>

theorem convergence_stops_immediately:
  assumes "compile w (wd k d) = (False, p, err)"
    and "comprehensive_fix re d err = Inr (d', fs)"
    and "d' = d \<or> fs = []"
  shows "finished_events (attempts re wd w mx (Suc n) k d acc) = [Finished False [] err acc] \<and>
         compile_calls (attempts re wd w mx (Suc n) k d acc) = [d] \<and>
         last (attempts re wd w mx (Suc n) k d acc) = Finished False [] err acc"
  using assms by auto

theorem convergence_stops_immediately_witness:
  "compile sample_worker (always_missing 0 sample_doc) = (False, [], missing_message) \<and>
   comprehensive_fix no_match_engine sample_doc missing_message = Inr (sample_doc, []) \<and>
   compile_calls (attempts no_match_engine always_missing sample_worker 5 (Suc 5) 0 sample_doc [])
     = [sample_doc] \<and>
   finished_events
     (attempts no_match_engine always_missing sample_worker 5 (Suc 5) 0 sample_doc [])
     = [Finished False [] missing_message []]"
proof -
  have c: "compile sample_worker (always_missing 0 sample_doc) = (False, [], missing_message)"
    by (simp add: always_missing_def compile_missing)
  have r: "comprehensive_fix no_match_engine sample_doc missing_message = Inr (sample_doc, [])"
    using comprehensive_fix_unmatched [OF no_rule_matches_missing] structural_fix_sample
    by simp
  have s: "sample_doc = sample_doc \<or> ([] :: string list) = []" by simp
  show ?thesis
    using convergence_stops_immediately [where w = sample_worker and wd = always_missing
        and k = 0 and d = sample_doc and re = no_match_engine and mx = 5 and n = 5
        and acc = "[]", OF c r s] c r
    by simp
qed

section \<open>Draft mode\<close>




section \<open>The facade\<close>

text \<open>
  C10. A request that finishes with \<open>success = False\<close> leaves the stored path as it
  was (\<open>None\<close> after \<open>__init__\<close>); only a request that finishes with success stores its
  path. Starting a request does not touch the path either.
\<close>

theorem failed_request_keeps_last_pdf_path:
  "get_last_pdf_path (on_finished (start_compile c cache_dir code name) success pdf_path err fs) =
     (if success then Some pdf_path else get_last_pdf_path c) \<and>
   get_last_pdf_path (deliver c (Finished False pdf_path err fs)) = get_last_pdf_path c \<and>
   get_last_pdf_path (init_compiler af) = None"
  by (simp add: get_last_pdf_path_def on_finished_def start_compile_def deliver_def
      init_compiler_def)

section \<open>The repair engine\<close>

lemma py_in_iff: "py_in sub s \<longleftrightarrow> (\<exists>xs ys. s = xs @ sub @ ys)"
proof (induction s)
  case Nil
  show ?case by auto
next
  case (Cons c cs)
  show ?case
  proof
    assume "py_in sub (c # cs)"
    then consider "prefix sub (c # cs)" | "py_in sub cs" by auto
    then show "\<exists>xs ys. c # cs = xs @ sub @ ys"
    proof cases
      case 1
      then obtain ys where "c # cs = sub @ ys" by (auto simp: prefix_def)
      then have "c # cs = [] @ sub @ ys" by simp
      then show ?thesis by blast
    next
      case 2
      then obtain xs ys where "cs = xs @ sub @ ys" using Cons.IH by blast
      then have "c # cs = (c # xs) @ sub @ ys" by simp
      then show ?thesis by blast
    qed
  next
    assume "\<exists>xs ys. c # cs = xs @ sub @ ys"
    then obtain xs ys where e: "c # cs = xs @ sub @ ys" by blast
    show "py_in sub (c # cs)"
    proof (cases xs)
      case Nil
      then have "prefix sub (c # cs)" using e by (simp add: prefix_def)
      then show ?thesis by simp
    next
      case (Cons x xs')
      then have "cs = xs' @ sub @ ys" using e by simp
      then show ?thesis using Cons.IH by auto
    qed
  qed
qed

lemma py_in_suffix: "py_in sub (xs @ sub)"
  using py_in_iff [of sub "xs @ sub"] by (metis append_Nil2)

lemma fix_truncated_document_has_marker:
  "py_in end_document (fst (fix_truncated_document code))"
proof (cases "py_in end_document code")
  case True
  then show ?thesis by (simp add: fix_truncated_document_def)
next
  case False
  have "py_in end_document ((foldl (\<lambda>c env. c @ newline # end_env env) code
          (rev (open_envs_of code)) @ [newline]) @ end_document)"
    by (rule py_in_suffix)
  then show ?thesis using False by (simp add: fix_truncated_document_def Let_def)
qed

lemma structural_fix_has_marker: "py_in end_document (fst (structural_fix code))"
  using fix_truncated_document_has_marker
  by (simp add: structural_fix_def then_fix_def split: prod.splits) (metis fst_conv)

text \<open>
  C3. A document that has the end marker, a document class, the begin marker, as many
  opening as closing braces outside the code listings and as many begin as end markers
  of every heavy block kind comes back unchanged from the repair engine run with no
  diagnostic, with an empty list of fix records.
\<close>

theorem repair_idempotent_on_well_formed:
  assumes "py_in end_document d" and "py_in documentclass d" and "py_in begin_document d"
    and "total_open d = total_close d"
    and "py_count d (begin_env ''lstlisting'') = py_count d (end_env ''lstlisting'')"
    and "py_count d (begin_env ''tabularx'') = py_count d (end_env ''tabularx'')"
    and "py_count d (begin_env ''longtable'') = py_count d (end_env ''longtable'')"
    and "py_count d (begin_env ''description'') = py_count d (end_env ''description'')"
    and "py_count d (begin_env ''multicols'') = py_count d (end_env ''multicols'')"
  shows "comprehensive_fix re d [] = Inr (d, [])"
proof -
  have "structural_fix d = (d, [])"
    using assms
    by (simp add: structural_fix_def then_fix_def ensure_document_structure_def
        fix_lstlisting_issues_def fix_tabularx_issues_def fix_description_issues_def
        fix_multicol_issues_def close_unclosed_def fix_brace_imbalance_def
        fix_truncated_document_def)
  then show ?thesis
    using comprehensive_fix_unmatched [OF no_rule_matches_empty, of re d] by simp
qed

theorem repair_idempotent_on_well_formed_witness:
  "py_in end_document sample_doc \<and> py_in documentclass sample_doc \<and>
   py_in begin_document sample_doc \<and> total_open sample_doc = total_close sample_doc \<and>
   comprehensive_fix no_match_engine sample_doc [] = Inr (sample_doc, [])"
proof -
  have h1: "py_in end_document sample_doc" unfolding sample_doc_def by code_simp
  have h2: "py_in documentclass sample_doc" unfolding sample_doc_def by code_simp
  have h3: "py_in begin_document sample_doc" unfolding sample_doc_def by code_simp
  have h4: "total_open sample_doc = total_close sample_doc" unfolding sample_doc_def by code_simp
  have h5: "py_count sample_doc (begin_env ''lstlisting'') =
            py_count sample_doc (end_env ''lstlisting'')" unfolding sample_doc_def by code_simp
  have h6: "py_count sample_doc (begin_env ''tabularx'') =
            py_count sample_doc (end_env ''tabularx'')" unfolding sample_doc_def by code_simp
  have h7: "py_count sample_doc (begin_env ''longtable'') =
            py_count sample_doc (end_env ''longtable'')" unfolding sample_doc_def by code_simp
  have h8: "py_count sample_doc (begin_env ''description'') =
            py_count sample_doc (end_env ''description'')" unfolding sample_doc_def by code_simp
  have h9: "py_count sample_doc (begin_env ''multicols'') =
            py_count sample_doc (end_env ''multicols'')" unfolding sample_doc_def by code_simp
  show ?thesis
    using repair_idempotent_on_well_formed [OF h1 h2 h3 h4 h5 h6 h7 h8 h9, of no_match_engine]
      h1 h2 h3 h4
    by simp
qed

text \<open>Replacements that leave the end marker in place.\<close>

lemma py_in_append_left: "py_in m xs \<Longrightarrow> py_in m (ys @ xs)"
proof -
  assume "py_in m xs"
  then obtain us vs where "xs = us @ m @ vs" using py_in_iff by blast
  then have "ys @ xs = (ys @ us) @ m @ vs" by simp
  then show ?thesis using py_in_iff by blast
qed

lemma py_in_append_right: "py_in m xs \<Longrightarrow> py_in m (xs @ ys)"
proof -
  assume "py_in m xs"
  then obtain us vs where "xs = us @ m @ vs" using py_in_iff by blast
  then have "xs @ ys = us @ m @ (vs @ ys)" by simp
  then show ?thesis using py_in_iff by blast
qed

lemma py_in_skip_headless:
  assumes "py_in (h # m') (u @ rest)" and "h \<notin> set u"
  shows "py_in (h # m') rest"
  using assms
proof (induction u)
  case Nil
  then show ?case by simp
next
  case (Cons x u)
  have "h \<noteq> x" using Cons.prems(2) by auto
  then have "py_in (h # m') (u @ rest)" using Cons.prems(1) by auto
  then show ?case using Cons.IH Cons.prems(2) by simp
qed

lemma py_in_after_occurrence:
  assumes "prefix (h # old') s" and "py_in (h # m') s" and "h \<notin> set old'"
    and "\<not> prefix (h # old') (h # m')" and "\<not> prefix (h # m') (h # old')"
  shows "py_in (h # m') (drop (length (h # old')) s)"
proof -
  obtain rest where s: "s = (h # old') @ rest" using assms(1) by (auto simp: prefix_def)
  have "\<not> prefix (h # m') s"
  proof
    assume "prefix (h # m') s"
    then have "prefix (h # old') (h # m') \<or> prefix (h # m') (h # old')"
      using assms(1) prefix_same_cases by blast
    then show False using assms(4,5) by blast
  qed
  then have "py_in (h # m') (old' @ rest)" using assms(2) s by simp
  then have "py_in (h # m') rest" using assms(3) by (rule py_in_skip_headless)
  then show ?thesis using s by simp
qed

lemma py_replace_keeps_prefix:
  assumes "prefix p s" and "\<forall>i<length p. \<not> prefix old (drop i s)" and "old \<noteq> []"
  shows "prefix p (py_replace s old new)"
  using assms(1,2)
proof (induction p arbitrary: s)
  case Nil
  show ?case by simp
next
  case (Cons x p)
  then obtain s' where s: "s = x # s'" and p: "prefix p s'" by (cases s) auto
  have n0: "\<not> prefix old (x # s')" using Cons.prems(2) s by auto
  have "\<forall>i<length p. \<not> prefix old (drop i s')"
  proof (intro allI impI)
    fix i assume "i < length p"
    then have "\<not> prefix old (drop (Suc i) s)" using Cons.prems(2) by auto
    then show "\<not> prefix old (drop i s')" using s by simp
  qed
  then have "prefix p (py_replace s' old new)" using Cons.IH [OF p] by simp
  then show ?case using s n0 assms(3) by simp
qed

lemma no_start_inside:
  assumes "prefix (h # m') s" and "h \<notin> set m'" and "0 < i" and "i < length (h # m')"
  shows "\<not> prefix (h # old') (drop i s)"
proof
  assume a: "prefix (h # old') (drop i s)"
  obtain rest where s: "s = (h # m') @ rest" using assms(1) by (auto simp: prefix_def)
  obtain j where j: "i = Suc j" using assms(3) by (cases i) auto
  have jl: "j < length m'" using assms(4) j by simp
  have "drop i s = drop j m' @ rest" using s j jl by simp
  moreover have "drop j m' = m' ! j # drop (Suc j) m'" using jl by (simp add: Cons_nth_drop_Suc)
  ultimately have "h = m' ! j" using a by simp
  moreover have "m' ! j \<in> set m'" using jl by simp
  ultimately show False using assms(2) by simp
qed

lemma py_replace_preserves:
  assumes "py_in (h # m') s" and "h \<notin> set m'" and "h \<notin> set old'"
    and "\<not> prefix (h # old') (h # m')" and "\<not> prefix (h # m') (h # old')"
  shows "py_in (h # m') (py_replace s (h # old') new)"
  using assms(1)
proof (induction "length s" arbitrary: s rule: less_induct)
  case less
  show ?case
  proof (cases s)
    case Nil
    then show ?thesis using less.prems by simp
  next
    case (Cons c cs)
    show ?thesis
    proof (cases "prefix (h # old') (c # cs)")
      case True
      have "py_in (h # m') (drop (length (h # old')) (c # cs))"
        using py_in_after_occurrence [OF True _ assms(3,4,5)] less.prems Cons by simp
      then have a: "py_in (h # m') (drop (length old') cs)" by simp
      have "length (drop (length old') cs) < length s" using Cons by simp
      then have "py_in (h # m') (py_replace (drop (length old') cs) (h # old') new)"
        using less.hyps a by simp
      then have "py_in (h # m') (new @ py_replace (drop (length old') cs) (h # old') new)"
        by (rule py_in_append_left)
      moreover have "py_replace (c # cs) (h # old') new =
          new @ py_replace (drop (length old') cs) (h # old') new"
        using True by simp
      ultimately show ?thesis using Cons by simp
    next
      case False
      have r: "py_replace (c # cs) (h # old') new = c # py_replace cs (h # old') new"
        using False by auto
      show ?thesis
      proof (cases "prefix (h # m') (c # cs)")
        case True
        have "\<forall>i<length (h # m'). \<not> prefix (h # old') (drop i (c # cs))"
        proof (intro allI impI)
          fix i assume i: "i < length (h # m')"
          show "\<not> prefix (h # old') (drop i (c # cs))"
          proof (cases "i = 0")
            case True
            then show ?thesis using False by simp
          next
            case nz: False
            then have "0 < i" by simp
            then show ?thesis by (rule no_start_inside [OF True assms(2) _ i])
          qed
        qed
        then have "prefix (h # m') (py_replace (c # cs) (h # old') new)"
          by (intro py_replace_keeps_prefix [OF True]) simp_all
        then obtain zs where "py_replace (c # cs) (h # old') new = [] @ (h # m') @ zs"
          by (auto simp: prefix_def)
        then have "py_in (h # m') (py_replace (c # cs) (h # old') new)"
          unfolding py_in_iff by (intro exI)
        then show ?thesis using Cons by simp
      next
        case np: False
        have "py_in (h # m') (c # cs)" using less.prems Cons by simp
        then have "py_in (h # m') cs" using np by (simp del: Cons_prefix_Cons)
        moreover have "length cs < length s" using Cons by simp
        ultimately have "py_in (h # m') (py_replace cs (h # old') new)"
          using less.hyps by simp
        then have "py_in (h # m') (c # py_replace cs (h # old') new)" by simp
        then show ?thesis using r Cons by simp
      qed
    qed
  qed
qed

lemma snoc_prefix_eq:
  assumes "c \<notin> set b" and "prefix (a @ [c]) (b @ [c])"
  shows "a = b"
proof -
  obtain z where z: "b @ [c] = (a @ [c]) @ z" using assms(2) by (auto simp: prefix_def)
  show ?thesis
  proof (cases "z = []")
    case True
    then show ?thesis using z by simp
  next
    case False
    have "butlast (b @ [c]) = butlast ((a @ [c]) @ z)" using z by simp
    then have "b = (a @ [c]) @ butlast z" using False by (simp add: butlast_append)
    then have "c \<in> set b" by simp
    then show ?thesis using assms(1) by simp
  qed
qed

lemma fix_undefined_environment_keeps_marker:
  assumes "py_in end_document code" and "bslash \<notin> set e" and "e \<noteq> ''document''"
    and "\<not> prefix ''document}'' e"
  shows "py_in end_document (fst (fix_undefined_environment code e))"
proof (cases "py_in (begin_env e) code")
  case False
  then show ?thesis using assms(1) by (simp add: fix_undefined_environment_def)
next
  case True
  let ?new1 = "''% Undefined environment: '' @ e @ newline # begin_env ''verbatim''"
  let ?new2 = "end_env ''verbatim'' @ newline # ''% End: '' @ e"
  have one: "py_in end_document (py_replace code (bslash # (''begin{'' @ e @ ''}'')) ?new1)"
    by (rule py_replace_preserves [OF assms(1)]) (use assms(2) in auto)
  have ne1: "\<not> prefix (e @ ''}'') ''document}''"
  proof
    assume "prefix (e @ ''}'') ''document}''"
    then have p: "prefix (e @ [CHR ''}'']) (''document'' @ [CHR ''}''])" by simp
    have d: "CHR ''}'' \<notin> set ''document''" by simp
    have "e = ''document''" by (rule snoc_prefix_eq [OF d p])
    then show False using assms(3) by simp
  qed
  have ne2: "\<not> prefix ''document}'' (e @ ''}'')"
  proof
    assume "prefix ''document}'' (e @ ''}'')"
    then have "''document}'' = e @ ''}'' \<or> prefix ''document}'' e"
      using prefix_snoc [of "''document}''" e "CHR ''}''"] by simp
    then show False using assms(3,4) by auto
  qed
  have two: "py_in end_document
      (py_replace (py_replace code (bslash # (''begin{'' @ e @ ''}'')) ?new1)
         (bslash # (''end{'' @ e @ ''}'')) ?new2)"
    by (rule py_replace_preserves [OF one]) (use assms(2) ne1 ne2 in auto)
  show ?thesis
    using True two by (simp add: fix_undefined_environment_def begin_env_def end_env_def)
qed

lemma lazy_bracket_last:
  assumes "lazy_bracket rp r = Some k" and "rp \<noteq> []"
  shows "0 < k \<and> k \<le> length r \<and> last (take k r) = last rp"
  using assms(1)
proof (induction r arbitrary: k)
  case Nil
  then show ?case by simp
next
  case (Cons c cs)
  show ?case
  proof (cases "c = CHR '']'' \<and> prefix rp cs")
    case True
    then have k: "k = Suc (length rp)" using Cons.prems by simp
    obtain zs where zs: "cs = rp @ zs" using True by (auto simp: prefix_def)
    have "take k (c # cs) = c # rp" using k zs by simp
    then show ?thesis using k zs assms(2) by simp
  next
    case False
    then obtain k' where k': "lazy_bracket rp cs = Some k'" "k = Suc k'" "c \<noteq> newline"
      using Cons.prems by (auto split: if_splits)
    from Cons.IH [OF k'(1)] have ih: "0 < k'" "k' \<le> length cs" "last (take k' cs) = last rp"
      by simp_all
    have "take k' cs \<noteq> []" using ih(1,2) by (cases cs) auto
    then show ?thesis using k'(2) ih by simp
  qed
qed

lemma usepackage_match_facts:
  assumes "usepackage_match_at name s = Some n"
  shows "0 < n \<and> n \<le> length s \<and> last (take n s) = CHR ''}'' \<and>
         prefix (bslash # ''usepackage'') s"
proof -
  let ?cmd = "bslash # ''usepackage''"
  let ?rp = "''{'' @ name @ ''}''"
  have p: "prefix ?cmd s"
    using assms by (auto simp: usepackage_match_at_def Let_def split: if_splits)
  then obtain rest where s: "s = ?cmd @ rest" by (auto simp: prefix_def)
  show ?thesis
  proof (cases "prefix ''['' rest")
    case True
    then obtain r' where r: "rest = CHR ''['' # r'" by (cases rest) auto
    then obtain k where k: "lazy_bracket ?rp r' = Some k" "n = length ?cmd + 1 + k"
      using assms s by (auto simp: usepackage_match_at_def Let_def split: if_splits)
    from lazy_bracket_last [OF k(1)] have l: "0 < k" "k \<le> length r'"
      "last (take k r') = CHR ''}''" by simp_all
    have t: "take n s = (?cmd @ ''['') @ take k r'" using s r k(2) by simp
    have "take k r' \<noteq> []" using l(1,2) by (cases r') auto
    then have "last (take n s) = CHR ''}''" unfolding t using l(3) by (simp del: append.simps)
    then show ?thesis using p k(2) l s r by simp
  next
    case False
    then have n: "prefix ?rp rest" "n = length ?cmd + length ?rp"
      using assms s by (auto simp: usepackage_match_at_def Let_def split: if_splits)
    then obtain zs where zs: "rest = ?rp @ zs" by (auto simp: prefix_def)
    have "take n s = ?cmd @ ?rp" using s zs n(2) by simp
    then show ?thesis using p n(2) s zs by simp
  qed
qed

lemma py_in_split_at_last:
  assumes "py_in (m0 @ [c]) (M @ rest)" and "M \<noteq> []" and "last M = c" and "c \<notin> set m0"
  shows "py_in (m0 @ [c]) M \<or> py_in (m0 @ [c]) rest"
proof -
  let ?m = "m0 @ [c]"
  obtain us vs where e: "M @ rest = us @ ?m @ vs" using assms(1) py_in_iff by blast
  then obtain w where w: "M = us @ w \<and> w @ rest = ?m @ vs \<or> M @ w = us \<and> rest = w @ ?m @ vs"
    unfolding append_eq_append_conv2 by blast
  from w show ?thesis
  proof
    assume "M @ w = us \<and> rest = w @ ?m @ vs"
    then have "py_in ?m rest" unfolding py_in_iff by blast
    then show ?thesis by simp
  next
    assume a: "M = us @ w \<and> w @ rest = ?m @ vs"
    then obtain z where z: "w = ?m @ z \<and> z @ rest = vs \<or> w @ z = ?m \<and> rest = z @ vs"
      unfolding append_eq_append_conv2 by blast
    from z show ?thesis
    proof
      assume "w = ?m @ z \<and> z @ rest = vs"
      then have "M = us @ ?m @ z" using a by simp
      then have "py_in ?m M" unfolding py_in_iff by blast
      then show ?thesis by simp
    next
      assume b: "w @ z = ?m \<and> rest = z @ vs"
      show ?thesis
      proof (cases "z = []")
        case True
        then have "M = us @ ?m @ []" using a b by simp
        then have "py_in ?m M" unfolding py_in_iff by blast
        then show ?thesis by simp
      next
        case zne: False
        show ?thesis
        proof (cases "w = []")
          case True
          then have "rest = [] @ ?m @ vs" using b by simp
          then have "py_in ?m rest" unfolding py_in_iff by blast
          then show ?thesis by simp
        next
          case wne: False
          have "last w = c" using a wne assms(3) by simp
          then have cw: "c \<in> set w" using wne last_in_set by fastforce
          have "butlast (w @ z) = m0" using b by simp
          then have "w @ butlast z = m0" using zne by (simp add: butlast_append)
          then have "c \<in> set m0" using cw by auto
          then show ?thesis using assms(4) by simp
        qed
      qed
    qed
  qed
qed

lemma usepackage_sub_keeps_prefix:
  assumes "prefix p s" and "\<forall>i<length p. usepackage_match_at name (drop i s) = None"
  shows "prefix p (usepackage_sub name s)"
  using assms
proof (induction p arbitrary: s)
  case Nil
  show ?case by simp
next
  case (Cons x p)
  then obtain s' where s: "s = x # s'" and p: "prefix p s'" by (cases s) auto
  have n0: "usepackage_match_at name (x # s') = None" using Cons.prems(2) s by auto
  have "\<forall>i<length p. usepackage_match_at name (drop i s') = None"
  proof (intro allI impI)
    fix i assume "i < length p"
    then have "usepackage_match_at name (drop (Suc i) s) = None" using Cons.prems(2) by auto
    then show "usepackage_match_at name (drop i s') = None" using s by simp
  qed
  then have "prefix p (usepackage_sub name s')" using Cons.IH [OF p] by simp
  then show ?case using s n0 by simp
qed

lemma no_usepackage_inside_marker:
  assumes "prefix end_document s" and "i < length end_document"
  shows "usepackage_match_at name (drop i s) = None"
proof (cases "usepackage_match_at name (drop i s)")
  case None
  then show ?thesis .
next
  case (Some n)
  then have u: "prefix (bslash # ''usepackage'') (drop i s)"
    using usepackage_match_facts by blast
  show ?thesis
  proof (cases "i = 0")
    case True
    obtain rest where "s = end_document @ rest" using assms(1) by (auto simp: prefix_def)
    then show ?thesis using u True by simp
  next
    case False
    then have "0 < i" by simp
    have "bslash \<notin> set ''end{document}''" by simp
    from no_start_inside [OF assms(1) this \<open>0 < i\<close> assms(2), of "''usepackage''"] u
    show ?thesis by simp
  qed
qed

lemma usepackage_sub_keeps_marker:
  assumes "py_in end_document s"
  shows "py_in end_document (usepackage_sub name s)"
  using assms
proof (induction "length s" arbitrary: s rule: less_induct)
  case less
  show ?case
  proof (cases s)
    case Nil
    then show ?thesis using less.prems by simp
  next
    case (Cons c cs)
    show ?thesis
    proof (cases "usepackage_match_at name (c # cs)")
      case (Some n)
      from usepackage_match_facts [OF Some] have f: "0 < n" "n \<le> length (c # cs)"
        "last (take n (c # cs)) = CHR ''}''" by simp_all
      have tn: "take n (c # cs) \<noteq> []" using f(1) by (cases n) auto
      have dn: "drop (n - 1) cs = drop n (c # cs)" using f(1) by (cases n) auto
      have "py_in ((bslash # ''end{document'') @ [CHR ''}''])
              (take n (c # cs) @ drop n (c # cs))"
        using less.prems Cons by simp
      from py_in_split_at_last [OF this tn f(3)]
      have alt: "py_in end_document (take n (c # cs)) \<or> py_in end_document (drop n (c # cs))"
        by simp
      have r: "usepackage_sub name (c # cs) =
          ''% '' @ (take n (c # cs) @ ''  % Package not available'' @
            usepackage_sub name (drop n (c # cs)))"
        using Some dn by simp
      from alt have "py_in end_document (take n (c # cs) @ ''  % Package not available'' @
            usepackage_sub name (drop n (c # cs)))"
      proof
        assume "py_in end_document (take n (c # cs))"
        then show ?thesis by (rule py_in_append_right)
      next
        assume a: "py_in end_document (drop n (c # cs))"
        have "length (drop n (c # cs)) < length s" using Cons f(1) by simp
        then have "py_in end_document (usepackage_sub name (drop n (c # cs)))"
          using less.hyps a by simp
        then have "py_in end_document ((take n (c # cs) @ ''  % Package not available'') @
            usepackage_sub name (drop n (c # cs)))"
          by (rule py_in_append_left)
        then show ?thesis by simp
      qed
      then have "py_in end_document (''% '' @ (take n (c # cs) @ ''  % Package not available'' @
            usepackage_sub name (drop n (c # cs))))"
        by (rule py_in_append_left)
      then show ?thesis using r Cons by simp
    next
      case None
      have r: "usepackage_sub name (c # cs) = c # usepackage_sub name cs" using None by simp
      show ?thesis
      proof (cases "prefix end_document (c # cs)")
        case True
        have "prefix end_document (usepackage_sub name (c # cs))"
          using usepackage_sub_keeps_prefix [OF True] no_usepackage_inside_marker [OF True]
          by blast
        then obtain zs where "usepackage_sub name (c # cs) = [] @ end_document @ zs"
          by (auto simp: prefix_def)
        then have "py_in end_document (usepackage_sub name (c # cs))"
          unfolding py_in_iff by (intro exI)
        then show ?thesis using Cons by simp
      next
        case False
        have "py_in end_document (c # cs)" using less.prems Cons by simp
        then have "py_in end_document cs" using False by (simp del: Cons_prefix_Cons)
        moreover have "length cs < length s" using Cons by simp
        ultimately have "py_in end_document (usepackage_sub name cs)" using less.hyps by simp
        then have "py_in end_document (c # usepackage_sub name cs)" by simp
        then show ?thesis using r Cons by simp
      qed
    qed
  qed
qed

lemma fix_package_not_found_plain:
  assumes "re_plain name" and "py_in end_document code"
  shows "\<exists>code' fs. fix_package_not_found re code name = Inr (code', fs) \<and>
           py_in end_document code'"
  using assms usepackage_sub_keeps_marker [OF assms(2), of name]
  by (simp add: fix_package_not_found_def usepackage_regex_def)

text \<open>
  C8, as amended. The truncation fix is the last of the rules that always run (step
  7); the diagnostic-driven rules run after it when the diagnostic matches. The
  document that the repair engine returns contains the end marker whenever the package
  name taken from the diagnostic, if any, has no special character of regular
  expressions and the environment name taken from it, if any, has no backslash, is not
  \<open>document\<close> and does not begin with \<open>document}\<close>. This holds in particular for the
  empty diagnostic of the pre-pass and for any diagnostic that matches neither pattern.
\<close>

theorem repair_result_has_end_marker:
  assumes "diagnostic_names_plain error_log"
  shows "\<exists>d' fs. comprehensive_fix re d error_log = Inr (d', fs) \<and> py_in end_document d'"
proof -
  obtain c7 f7 where sf: "structural_fix d = (c7, f7)" by (cases "structural_fix d")
  have m7: "py_in end_document c7" using structural_fix_has_marker [of d] sf by simp
  have "\<exists>c8 f8. (case pkg_match error_log of None \<Rightarrow> Inr (c7, [])
            | Some pkg_name \<Rightarrow> fix_package_not_found re c7 pkg_name) = Inr (c8, f8) \<and>
          py_in end_document c8"
  proof (cases "pkg_match error_log")
    case None
    then show ?thesis using m7 by simp
  next
    case (Some n)
    then have "re_plain n" using assms by (simp add: diagnostic_names_plain_def)
    from fix_package_not_found_plain [OF this m7, of re] show ?thesis using Some by simp
  qed
  then obtain c8 f8 where s8: "(case pkg_match error_log of None \<Rightarrow> Inr (c7, [])
            | Some pkg_name \<Rightarrow> fix_package_not_found re c7 pkg_name) = Inr (c8, f8)"
    and m8: "py_in end_document c8" by blast
  show ?thesis
  proof (cases "env_match error_log")
    case None
    then show ?thesis using sf s8 m8 by (simp add: comprehensive_fix_def)
  next
    case (Some e)
    then have e: "bslash \<notin> set e" "e \<noteq> ''document''" "\<not> prefix ''document}'' e"
      using assms by (simp_all add: diagnostic_names_plain_def)
    obtain c9 f9 where s9: "fix_undefined_environment c8 e = (c9, f9)"
      by (cases "fix_undefined_environment c8 e")
    have "py_in end_document c9"
      using fix_undefined_environment_keeps_marker [OF m8 e] s9 by simp
    then show ?thesis using sf s8 Some s9 by (simp add: comprehensive_fix_def)
  qed
qed

theorem repair_result_has_end_marker_witness:
  "diagnostic_names_plain two_rules_log \<and>
   pkg_match two_rules_log = Some ''foo'' \<and> env_match two_rules_log = Some ''theorem'' \<and>
   (\<exists>d' fs. comprehensive_fix no_match_engine two_rules_doc two_rules_log = Inr (d', fs) \<and>
      py_in end_document d')"
proof -
  have h: "diagnostic_names_plain two_rules_log"
    unfolding diagnostic_names_plain_def two_rules_log_def by code_simp
  have p: "pkg_match two_rules_log = Some ''foo''" unfolding two_rules_log_def by code_simp
  have e: "env_match two_rules_log = Some ''theorem''" unfolding two_rules_log_def by code_simp
  show ?thesis
    using repair_result_has_end_marker [OF h, of no_match_engine two_rules_doc] h p e by simp
qed

text \<open>
  C8, as stated, fails: steps 8 and 9 run after the truncation fix. With a diagnostic
  that names the environment \<open>document\<close> as undefined, step 9 replaces the end marker,
  and the document returned has none.
\<close>

theorem diagnostic_rule_removes_end_marker_counterexample:
  "comprehensive_fix no_match_engine sample_doc undefined_document_log =
     Inr (documentclass @ ''{article}% Undefined environment: document'' @ newline #
          begin_env ''verbatim'' @ ''x'' @ end_env ''verbatim'' @ newline # ''% End: document'',
          [''Replaced undefined environment: document'']) \<and>
   \<not> py_in end_document
       (documentclass @ ''{article}% Undefined environment: document'' @ newline #
        begin_env ''verbatim'' @ ''x'' @ end_env ''verbatim'' @ newline # ''% End: document'')"
  unfolding sample_doc_def undefined_document_log_def by code_simp

text \<open>
  A diagnostic that fires both rules on ordinary names, and the document returned.
\<close>

lemma two_rules_example:
  "comprehensive_fix no_match_engine two_rules_doc two_rules_log =
     Inr (documentclass @ ''{article}'' @ newline # ''% '' @ bslash #
          ''usepackage{foo}  % Package not available'' @ newline # begin_document @
          ''% Undefined environment: theorem'' @ newline # begin_env ''verbatim'' @ ''x'' @
          end_env ''verbatim'' @ newline # ''% End: theorem'' @ end_document,
          [''Commented out unavailable package: foo'',
           ''Replaced undefined environment: theorem''])"
  unfolding two_rules_doc_def two_rules_log_def by code_simp

text \<open>
  An environment name that begins with \<open>document}\<close>, or one with a backslash, can take
  the end marker away as well.
\<close>

lemma exotic_environment_name_example:
  "env_match exotic_env_log = Some (''document}'' @ bslash # ''end{document'') \<and>
   comprehensive_fix no_match_engine empty_body_doc exotic_env_log =
     Inr (documentclass @ ''{article}% Undefined environment: document}'' @ bslash #
          ''end{document'' @ newline # begin_env ''verbatim'',
          [''Replaced undefined environment: document}'' @ bslash # ''end{document'']) \<and>
   \<not> py_in end_document
       (documentclass @ ''{article}% Undefined environment: document}'' @ bslash #
        ''end{document'' @ newline # begin_env ''verbatim'')"
  unfolding exotic_env_log_def empty_body_doc_def by code_simp

lemma backslash_environment_name_example:
  "env_match backslash_env_log = Some (''x'' @ bslash # ''end{document'') \<and>
   py_in end_document backslash_env_doc \<and>
   comprehensive_fix no_match_engine backslash_env_doc backslash_env_log =
     Inr (documentclass @ ''{article}'' @ begin_document @
          ''% Undefined environment: x'' @ bslash # ''end{document'' @ newline #
          begin_env ''verbatim'' @ ''}'',
          [''Replaced undefined environment: x'' @ bslash # ''end{document'']) \<and>
   \<not> py_in end_document
       (documentclass @ ''{article}'' @ begin_document @
        ''% Undefined environment: x'' @ bslash # ''end{document'' @ newline #
        begin_env ''verbatim'' @ ''}'')"
  unfolding backslash_env_log_def backslash_env_doc_def by code_simp

text \<open>
  C5. The code does not scan the markers in document order: it collects every begin
  marker first and then pops for an end marker that equals the last name collected.
  On a truncated document in which \<open>center\<close> is opened and closed and \<open>itemize\<close> is
  left open, the scan of the specification leaves \<open>itemize\<close> alone open, and the code
  closes \<open>itemize\<close> and then \<open>center\<close> a second time.
\<close>

theorem truncation_fix_closes_closed_block:
  "open_envs_of reopened_doc = [''center'', ''itemize''] \<and>
   spec_open_blocks reopened_doc = [''itemize''] \<and>
   fix_truncated_document reopened_doc =
     (reopened_doc @ newline # end_env ''itemize'' @ newline # end_env ''center'' @ newline # end_document,
      [''Closed unclosed environment: itemize'', ''Closed unclosed environment: center'',
       ''Added missing '' @ end_document])"
  unfolding reopened_doc_def by code_simp
text \<open>
  The part of C5 that holds: on a truncated document with no end marker of any block,
  the closing markers are appended innermost first, then the end marker of the
  document.
\<close>

lemma foldl_append_closers:
  "foldl (\<lambda>c env. c @ f env) code envs = code @ concat (map f envs)"
  by (induction envs arbitrary: code) simp_all


lemma truncation_fix_nested_opens:
  assumes "\<not> py_in end_document code" and "re_finditer_env ''end'' code = []"
  shows "fix_truncated_document code =
           (code @ concat (map (\<lambda>env. newline # end_env env)
                           (rev (re_finditer_env ''begin'' code))) @ newline # end_document,
            map (\<lambda>env. ''Closed unclosed environment: '' @ env)
              (rev (re_finditer_env ''begin'' code)) @ [''Added missing '' @ end_document])"
  using assms
  by (simp add: fix_truncated_document_def open_envs_of_def foldl_append_closers Let_def)

lemma truncation_fix_nested_example:
  "fst (fix_truncated_document (begin_env ''A'' @ begin_env ''B'' @ begin_env ''C'')) =
     begin_env ''A'' @ begin_env ''B'' @ begin_env ''C'' @ newline # end_env ''C'' @
     newline # end_env ''B'' @ newline # end_env ''A'' @ newline # end_document"
  by code_simp

section \<open>A toolchain that is missing\<close>

lemma attempts_all_missing:
  assumes "\<forall>j c. wd j c = Missing" and "mx < k + n" and "0 < n"
  shows "\<exists>fs'. finished_events (attempts re wd w mx n k d acc) =
                  [Finished False [] missing_message fs'] \<and>
               last (attempts re wd w mx n k d acc) = Finished False [] missing_message fs'"
  using assms(2,3)
proof (induction n arbitrary: k d acc)
  case 0
  then show ?case by simp
next
  case (Suc n)
  have c: "compile w (wd k d) = (False, [], missing_message)"
    using assms(1) by (simp add: compile_missing)
  show ?case
  proof (cases "\<not> autofix w \<or> mx \<le> k")
    case True
    then show ?thesis using c by auto
  next
    case False
    then have lt: "mx < Suc k + n" and pos: "0 < n" using Suc.prems by simp_all
    obtain d' fs where sf: "structural_fix d = (d', fs)" by (cases "structural_fix d")
    note cf = comprehensive_fix_unmatched [OF no_rule_matches_missing, of re d]
    show ?thesis
    proof (cases "d' = d \<or> fs = []")
      case True
      then show ?thesis using c False sf cf by auto
    next
      case stop: False
      from Suc.IH [OF lt pos, of d' "acc @ fs"] obtain f2 where
        ih: "finished_events (attempts re wd w mx n (Suc k) d' (acc @ fs)) =
               [Finished False [] missing_message f2]"
          "last (attempts re wd w mx n (Suc k) d' (acc @ fs)) =
               Finished False [] missing_message f2" by blast
      have ne: "attempts re wd w mx n (Suc k) d' (acc @ fs) \<noteq> []" using ih(1) by auto
      show ?thesis using c False sf stop cf ih ne by auto
    qed
  qed
qed

lemma run_with_all_missing:
  assumes "\<forall>j c. wd j c = Missing"
  shows "\<exists>fs'. finished_events (run_with mx re wd w) = [Finished False [] missing_message fs'] \<and>
               last (run_with mx re wd w) = Finished False [] missing_message fs'"
proof (cases "autofix w")
  case False
  then show ?thesis
    using attempts_all_missing [OF assms, of mx 0 "mx + 1" re w "latex_code w" "[]"]
    by (simp add: run_with_def)
next
  case True
  obtain d0 f0 where sf: "structural_fix (latex_code w) = (d0, f0)"
    by (cases "structural_fix (latex_code w)")
  from attempts_all_missing [OF assms, of mx 0 "mx + 1" re w d0 f0] obtain fs' where
    a: "finished_events (attempts re wd w mx (mx + 1) 0 d0 f0) =
          [Finished False [] missing_message fs']"
       "last (attempts re wd w mx (mx + 1) 0 d0 f0) = Finished False [] missing_message fs'"
    by auto
  have ne: "attempts re wd w mx (mx + 1) 0 d0 f0 \<noteq> []" using a(1) by auto
  have cf: "comprehensive_fix re (latex_code w) [] = Inr (d0, f0)"
    using comprehensive_fix_unmatched [OF no_rule_matches_empty] sf by simp
  show ?thesis using True a ne cf by (simp add: run_with_def)
qed

text \<open>
  C6, as amended. When \<open>pdflatex\<close> cannot be located the attempt fails with the fixed
  message and is handled like any failed attempt. With autofix off, with the attempt
  budget used up, or when the repair engine (run with the message as diagnostic, which
  matches no diagnostic-driven rule) returns the same document or no fix record, the
  request ends there with that message and \<open>_compile\<close> is not called again. Otherwise
  the fix records are collected and the next attempt runs on the repaired document.
  When \<open>pdflatex\<close> cannot be located at any attempt, the request makes at most
  \<open>MAX_FIX_ATTEMPTS + 1\<close> attempts and ends with the one \<open>finished\<close> signal of its
  trace, a failure that carries the fixed message.
\<close>

theorem missing_toolchain_is_failed_attempt:
  assumes "wd k d = Missing" and "structural_fix d = (d', fs)"
  shows "compile w (wd k d) = (False, [], missing_message) \<and>
         attempts re wd w mx (Suc n) k d acc =
           Progress (''Compiling... (attempt '' @ str_nat (k + 1) @ '')'') # Compile d #
           (if \<not> autofix w \<or> mx \<le> k then [Finished False [] missing_message acc]
            else Progress (''Analyzing errors (attempt '' @ str_nat (k + 1) @ '')...'') #
                 (if d' = d \<or> fs = [] then [Finished False [] missing_message acc]
                  else Progress (''Applied '' @ str_nat (length fs) @ '' fix(es), retrying...'') #
                       attempts re wd w mx n (k + 1) d' (acc @ fs))) \<and>
         ((\<forall>j c. wd j c = Missing) \<longrightarrow>
            length (compile_calls (run_with mx re wd w)) \<le> mx + 1 \<and>
            (\<exists>fs'. finished_events (run_with mx re wd w) =
                     [Finished False [] missing_message fs'] \<and>
                   last (run_with mx re wd w) = Finished False [] missing_message fs'))"
proof -
  have c: "compile w (wd k d) = (False, [], missing_message)"
    using assms(1) by (simp add: compile_missing)
  have cf: "comprehensive_fix re d missing_message = Inr (d', fs)"
    using comprehensive_fix_unmatched [OF no_rule_matches_missing, of re d] assms(2) by simp
  have step: "attempts re wd w mx (Suc n) k d acc =
           Progress (''Compiling... (attempt '' @ str_nat (k + 1) @ '')'') # Compile d #
           (if \<not> autofix w \<or> mx \<le> k then [Finished False [] missing_message acc]
            else Progress (''Analyzing errors (attempt '' @ str_nat (k + 1) @ '')...'') #
                 (if d' = d \<or> fs = [] then [Finished False [] missing_message acc]
                  else Progress (''Applied '' @ str_nat (length fs) @ '' fix(es), retrying...'') #
                       attempts re wd w mx n (k + 1) d' (acc @ fs)))"
    using c cf by simp
  show ?thesis using c step run_with_all_missing [of wd mx re w] run_with_calls_le [of mx re wd w]
    by blast
qed

theorem missing_toolchain_is_failed_attempt_witness:
  "always_missing 0 two_markers_doc = Missing \<and>
   (\<forall>j c. always_missing j c = Missing) \<and>
   length (compile_calls (run_with 5 no_match_engine always_missing two_markers_worker)) \<le> 5 + 1 \<and>
   (\<exists>fs'. finished_events (run_with 5 no_match_engine always_missing two_markers_worker) =
             [Finished False [] missing_message fs'])"
proof -
  have m: "always_missing 0 two_markers_doc = Missing" by (simp add: always_missing_def)
  have a: "\<forall>j c. always_missing j c = Missing" by (simp add: always_missing_def)
  obtain d' fs where sf: "structural_fix two_markers_doc = (d', fs)"
    by (cases "structural_fix two_markers_doc")
  show ?thesis
    using missing_toolchain_is_failed_attempt [where wd = always_missing and k = 0
        and d = two_markers_doc and w = two_markers_worker and mx = 5 and re = no_match_engine
        and n = 5 and acc = "[]", OF m sf] m a
    by blast
qed

text \<open>
  C6, as stated, fails: the repair engine runs after the detection, and when it changes
  the document the next attempt is made. The pre-pass puts a closing brace before both
  end markers of the document below, one too many; after the first attempt finds no
  toolchain, the repair engine removes the last closing brace and the orchestrator calls
  \<open>_compile\<close> a second time.
\<close>

theorem missing_toolchain_retry_counterexample:
  "always_missing 0 two_markers_doc = Missing \<and>
   length (compile_calls (run no_match_engine always_missing two_markers_worker)) = 2 \<and>
   finished_events (run no_match_engine always_missing two_markers_worker) =
     [Finished False [] ''pdflatex not found. Install TeX Live or MiKTeX.''
        [''Added 1 missing closing brace(s)'', ''Removed 1 extra closing brace(s)'']]"
  unfolding two_markers_worker_def two_markers_doc_def sample_worker_def sample_doc_def
  by code_simp

section \<open>The terminal signal\<close>

text \<open>
  Unless the repair engine raises, the loop emits \<open>finished\<close> once, as its last action,
  with the fix records collected before the attempt as a prefix of the records it
  carries.
\<close>

lemma attempts_finish_or_raise:
  assumes "mx < k + n" and "0 < n"
  shows "(\<exists>s p e f. finished_events (attempts re wd w mx n k d acc) = [Finished s p e f] \<and>
            last (attempts re wd w mx n k d acc) = Finished s p e f \<and> prefix acc f) \<or>
         (\<exists>x. finished_events (attempts re wd w mx n k d acc) = [] \<and>
            last (attempts re wd w mx n k d acc) = Raise x)"
  using assms
proof (induction n arbitrary: k d acc)
  case 0
  then show ?case by simp
next
  case (Suc n)
  obtain s p err where c: "compile w (wd k d) = (s, p, err)"
    by (cases "compile w (wd k d)")
  show ?case
  proof (cases "s \<or> \<not> autofix w \<or> mx \<le> k")
    case True
    then show ?thesis using c by (cases s) auto
  next
    case False
    then have s: "\<not> s" by simp
    from False have lt: "mx < Suc k + n" and pos: "0 < n" using Suc.prems by simp_all
    show ?thesis
    proof (cases "comprehensive_fix re d err")
      case (Inl x)
      then show ?thesis using c False s by auto
    next
      case (Inr r)
      obtain d' fs where r: "r = (d', fs)" by (cases r)
      show ?thesis
      proof (cases "d' = d \<or> fs = []")
        case True
        then show ?thesis using c False s Inr r by auto
      next
        case stop: False
        let ?rest = "attempts re wd w mx n (Suc k) d' (acc @ fs)"
        from Suc.IH [OF lt pos, of d' "acc @ fs"]
        consider (fin) s2 p2 e2 f2 where "finished_events ?rest = [Finished s2 p2 e2 f2]"
            "last ?rest = Finished s2 p2 e2 f2" "prefix (acc @ fs) f2"
          | (rai) x where "finished_events ?rest = []" "last ?rest = Raise x"
          by blast
        then show ?thesis
        proof cases
          case fin
          have ne: "?rest \<noteq> []" using fin(1) by auto
          have "prefix acc f2" using fin(3) by (metis append_prefixD)
          then show ?thesis using c False s Inr r stop fin ne by auto
        next
          case rai
          have ne: "?rest \<noteq> []"
          proof
            assume "?rest = []"
            then show False using lt pos by (cases n) auto
          qed
          then show ?thesis using c False s Inr r stop rai by auto
        qed
      qed
    qed
  qed
qed

lemma run_with_finishes_or_raises:
  "(\<exists>s p e f. finished_events (run_with mx re wd w) = [Finished s p e f] \<and>
      last (run_with mx re wd w) = Finished s p e f) \<or>
   (\<exists>x. finished_events (run_with mx re wd w) = [] \<and> last (run_with mx re wd w) = Raise x)"
proof -
  have step: "(\<exists>s p e f. finished_events (pre @ attempts re wd w mx (mx + 1) 0 d acc) =
                  [Finished s p e f] \<and>
                last (pre @ attempts re wd w mx (mx + 1) 0 d acc) = Finished s p e f) \<or>
              (\<exists>x. finished_events (pre @ attempts re wd w mx (mx + 1) 0 d acc) = [] \<and>
                 last (pre @ attempts re wd w mx (mx + 1) 0 d acc) = Raise x)"
    if "finished_events pre = []" for pre d acc
  proof -
    let ?a = "attempts re wd w mx (mx + 1) 0 d acc"
    have ne: "?a \<noteq> []" by simp
    from attempts_finish_or_raise [of mx 0 "mx + 1" re wd w d acc]
    show ?thesis using that ne by auto
  qed
  show ?thesis
  proof (cases "autofix w")
    case False
    then show ?thesis using step [of "[]" "latex_code w" "[]"] by (simp add: run_with_def)
  next
    case True
    obtain d0 f0 where sf: "structural_fix (latex_code w) = (d0, f0)"
      by (cases "structural_fix (latex_code w)")
    have cf: "comprehensive_fix re (latex_code w) [] = Inr (d0, f0)"
      using comprehensive_fix_unmatched [OF no_rule_matches_empty] sf by simp
    show ?thesis
    proof (cases "f0 = []")
      case True
      show ?thesis
        using step [of "[Progress ''Pre-checking document structure...'']" d0 f0]
          \<open>autofix w\<close> cf True
        by (simp add: run_with_def)
    next
      case False
      show ?thesis
        using step [of "[Progress ''Pre-checking document structure...'',
            Progress (''Applied '' @ str_nat (length f0) @ '' pre-compilation fix(es)'')]" d0 f0]
          \<open>autofix w\<close> cf False
        by (simp add: run_with_def)
    qed
  qed
qed

text \<open>
  C7. The claim fails on a request whose toolchain reports that the package \<open>a(b\<close> is
  missing: \<open>fix_package_not_found\<close> puts the name into its pattern, \<open>re.search\<close> raises
  \<open>re.error\<close> for the unbalanced parenthesis, nothing in \<open>run\<close> catches it, and \<open>run\<close>
  ends after one call of \<open>_compile\<close> without a \<open>finished\<close> signal.
\<close>

theorem regex_error_leaves_run:
  "finished_events (run re bad_package_world bad_package_worker) = [] \<and>
   last (run re bad_package_world bad_package_worker) = Raise ReError \<and>
   length (compile_calls (run re bad_package_world bad_package_worker)) = 1"
  unfolding bad_package_world_def bad_package_worker_def bad_package_doc_def
    bad_package_log_def sample_worker_def sample_doc_def
  by code_simp


section \<open>The brace rule\<close>

text \<open>Occurrences of a text after an insertion, a replacement and a removal.\<close>

lemma py_count_char: "py_count s [c] = count_list s c"
  by (induction s) auto

lemma py_find_None: "py_find s sub = None \<longleftrightarrow> \<not> py_in sub s"
  by (induction s) auto

lemma re_split_no_listing:
  "\<not> py_in begin_lstlisting s \<Longrightarrow> re_split_lstlisting s = [s]"
  using py_find_None [of s begin_lstlisting]
  by (subst re_split_lstlisting.simps) simp

lemma totals_no_listing:
  assumes "\<not> py_in begin_lstlisting s"
  shows "total_open s = count_list s CHR ''{''" and "total_close s = count_list s CHR ''}''"
  using re_split_no_listing [OF assms]
  by (simp_all add: total_open_def total_close_def py_count_char)

lemma no_lst_open_no_begin:
  "\<not> py_in lst_open s \<Longrightarrow> \<not> py_in begin_lstlisting s"
proof
  assume a: "\<not> py_in lst_open s" and b: "py_in begin_lstlisting s"
  from b obtain xs ys where "s = xs @ begin_lstlisting @ ys" using py_in_iff by blast
  then have "s = xs @ lst_open @ (''}'' @ ys)" by simp
  then have "py_in lst_open s" using py_in_iff by blast
  with a show False by simp
qed

lemma py_in_insert:
  assumes "\<not> py_in p (xs @ ys)" and "set ins \<inter> set p = {}"
  shows "\<not> py_in p (xs @ ins @ ys)"
proof -
  have pne: "p \<noteq> []" using assms(1) py_in_iff [of "[]" "xs @ ys"] by auto
  have tail: "\<not> py_in p (is @ ys)" if "set is \<subseteq> set ins" "\<not> py_in p ys" for "is"
    using that
  proof (induction "is")
    case Nil
    then show ?case by simp
  next
    case (Cons i is')
    have "\<not> prefix p (i # is' @ ys)"
    proof
      assume "prefix p (i # is' @ ys)"
      then have "hd p = i" using pne by (cases p) auto
      then have "i \<in> set p" using pne by (cases p) auto
      moreover have "i \<in> set ins" using Cons.prems by simp
      ultimately show False using assms(2) by auto
    qed
    then show ?case using Cons by simp
  qed
  show ?thesis
    using assms(1)
  proof (induction xs)
    case Nil
    then show ?case using tail [of ins] by simp
  next
    case (Cons x xs')
    have np: "\<not> prefix p (x # xs' @ ys)" and nr: "\<not> py_in p (xs' @ ys)"
      using Cons.prems by simp_all
    have "\<not> prefix p ((x # xs') @ ins @ ys)"
    proof
      assume pr: "prefix p ((x # xs') @ ins @ ys)"
      then consider "prefix p (x # xs')" | us where "p = (x # xs') @ us" "prefix us (ins @ ys)"
        "us \<noteq> []"
        unfolding prefix_append by (metis append_Nil2 prefix_order.order_refl)
      then show False
      proof cases
        case 1
        then have "prefix p (x # xs' @ ys)" by (metis append_Cons prefix_prefix)
        with np show ?thesis by simp
      next
        case 2
        show ?thesis
        proof (cases ins)
          case Nil
          then have "prefix p ((x # xs') @ ys)" using pr by simp
          with np show ?thesis by simp
        next
          case (Cons i is')
          then have "hd us = i" using 2(2,3) by (cases us) auto
          then have "i \<in> set p" using 2(1,3) by (cases us) auto
          moreover have "i \<in> set ins" using Cons by simp
          ultimately show ?thesis using assms(2) by auto
        qed
      qed
    qed
    then show ?case using Cons.IH [OF nr] by simp
  qed
qed

lemma py_replace_absent: "\<not> py_in old s \<Longrightarrow> py_replace s old new = s"
proof (induction s)
  case Nil
  then show ?case by auto
next
  case (Cons c cs)
  then show ?case by (cases "old = []") auto
qed

lemma py_replace_at_head:
  "old \<noteq> [] \<Longrightarrow> py_replace (old @ post) old new = new @ py_replace post old new"
  by (cases old) auto

lemma prefix_no_self_overlap:
  assumes "prefix m (xs @ m @ ys)" and "m \<noteq> []" and "hd m \<notin> set (tl m)"
  shows "xs = [] \<or> prefix m xs"
proof (cases "xs = []")
  case True
  then show ?thesis by simp
next
  case False
  from assms(1) consider "prefix m xs" | us where "m = xs @ us" "prefix us (m @ ys)" "us \<noteq> []"
    unfolding prefix_append by (metis append_Nil2 prefix_order.order_refl)
  then show ?thesis
  proof cases
    case 1
    then show ?thesis by simp
  next
    case 2
    have "hd us = hd m" using 2(2,3) assms(2) by (cases us; cases m) auto
    moreover have "hd us \<in> set (tl m)" using 2(1,3) False by (cases xs; cases us) auto
    ultimately show ?thesis using assms(3) by simp
  qed
qed

lemma py_replace_once:
  assumes "\<not> py_in m pre" and "\<not> py_in m post" and "m \<noteq> []" and "hd m \<notin> set (tl m)"
  shows "py_replace (pre @ m @ post) m new = pre @ new @ post"
  using assms(1)
proof (induction pre)
  case Nil
  show ?case using py_replace_at_head [OF assms(3)] py_replace_absent [OF assms(2)] by simp
next
  case (Cons x pre')
  have np: "\<not> prefix m (x # pre')" and nr: "\<not> py_in m pre'" using Cons.prems by simp_all
  have "\<not> prefix m ((x # pre') @ m @ post)"
    using prefix_no_self_overlap [OF _ assms(3,4), of "x # pre'" post] np by auto
  then show ?case using Cons.IH [OF nr] assms(3) by simp
qed

lemma py_rfind_char_None: "py_rfind s [c] = None \<longleftrightarrow> c \<notin> set s"
  by (induction s) (auto split: option.splits)

lemma py_rfind_char_Some:
  "py_rfind s [c] = Some i \<Longrightarrow> s = take i s @ c # drop (Suc i) s \<and> c \<notin> set (drop (Suc i) s)"
proof (induction s arbitrary: i)
  case Nil
  then show ?case by simp
next
  case (Cons x xs)
  show ?case
  proof (cases "py_rfind xs [c]")
    case None
    then have "c \<notin> set xs" using py_rfind_char_None [of xs c] by simp
    then show ?thesis using Cons.prems None by (auto split: if_splits)
  next
    case (Some j)
    then have i: "i = Suc j" using Cons.prems by simp
    show ?thesis using Cons.IH [OF Some] i by simp
  qed
qed

lemma remove_last_brace_split:
  assumes "CHR ''}'' \<in> set code"
  shows "\<exists>xs ys. code = xs @ CHR ''}'' # ys \<and> CHR ''}'' \<notin> set ys \<and>
           remove_last_brace code = xs @ ys"
proof -
  obtain i where i: "py_rfind code ''}'' = Some i"
    using assms py_rfind_char_None [of code "CHR ''}''"] by (cases "py_rfind code ''}''") auto
  from py_rfind_char_Some [OF i] have
    "code = take i code @ CHR ''}'' # drop (Suc i) code" "CHR ''}'' \<notin> set (drop (Suc i) code)"
    by simp_all
  moreover have "remove_last_brace code = take i code @ drop (Suc i) code"
    using i by (simp add: remove_last_brace_def)
  ultimately show ?thesis by blast
qed

lemma py_in_remove_last:
  assumes "\<not> py_in (p @ [c]) (xs @ c # ys)" and "c \<notin> set ys"
  shows "\<not> py_in (p @ [c]) (xs @ ys)"
proof
  assume "py_in (p @ [c]) (xs @ ys)"
  then obtain us vs where e: "xs @ ys = us @ (p @ [c]) @ vs" using py_in_iff by blast
  then have "xs @ ys = (us @ p @ [c]) @ vs" by simp
  then obtain w where w: "xs = (us @ p @ [c]) @ w \<and> w @ ys = vs \<or>
      xs @ w = us @ p @ [c] \<and> ys = w @ vs"
    unfolding append_eq_append_conv2 by blast
  have inside: "xs = (us @ p @ [c]) @ w' \<Longrightarrow> False" for w'
  proof -
    assume "xs = (us @ p @ [c]) @ w'"
    then have "xs @ c # ys = us @ (p @ [c]) @ (w' @ c # ys)" by simp
    then have "py_in (p @ [c]) (xs @ c # ys)" using py_in_iff by blast
    with assms(1) show False by simp
  qed
  from w show False
  proof
    assume "xs = (us @ p @ [c]) @ w \<and> w @ ys = vs"
    then show False using inside by blast
  next
    assume b: "xs @ w = us @ p @ [c] \<and> ys = w @ vs"
    show False
    proof (cases "w = []")
      case True
      then have "xs = (us @ p @ [c]) @ []" using b by simp
      then show False using inside by blast
    next
      case False
      have "last (xs @ w) = last (us @ p @ [c])" using b by simp
      then have "last w = c" using False by simp
      then have "c \<in> set w" using False last_in_set by blast
      then show False using b assms(2) by simp
    qed
  qed
qed

lemma remove_last_brace_iter:
  assumes "d \<le> count_list code CHR ''}''"
  shows "count_list ((remove_last_brace ^^ d) code) CHR ''}'' + d = count_list code CHR ''}'' \<and>
         count_list ((remove_last_brace ^^ d) code) CHR ''{'' = count_list code CHR ''{'' \<and>
         length ((remove_last_brace ^^ d) code) + d = length code \<and>
         (\<not> py_in begin_lstlisting code \<longrightarrow> \<not> py_in begin_lstlisting ((remove_last_brace ^^ d) code))"
  using assms
proof (induction d)
  case 0
  show ?case by simp
next
  case (Suc d)
  let ?c = "(remove_last_brace ^^ d) code"
  have ih: "count_list ?c CHR ''}'' + d = count_list code CHR ''}''"
    "count_list ?c CHR ''{'' = count_list code CHR ''{''"
    "length ?c + d = length code"
    "\<not> py_in begin_lstlisting code \<longrightarrow> \<not> py_in begin_lstlisting ?c"
    using Suc by simp_all
  have "0 < count_list ?c CHR ''}''" using ih(1) Suc.prems by simp
  then have "CHR ''}'' \<in> set ?c" by (rule_tac ccontr) (simp add: count_list_0_iff)
  from remove_last_brace_split [OF this] obtain xs ys where
    s: "?c = xs @ CHR ''}'' # ys" "CHR ''}'' \<notin> set ys" "remove_last_brace ?c = xs @ ys"
    by blast
  have keep: "\<not> py_in begin_lstlisting ?c \<Longrightarrow> \<not> py_in begin_lstlisting (xs @ ys)"
    using py_in_remove_last [of lst_open "CHR ''}''" xs ys] s(1,2) by simp
  have c1: "count_list (xs @ ys) CHR ''}'' + Suc d = count_list code CHR ''}''"
    using ih(1) s(1) by simp
  have c2: "count_list (xs @ ys) CHR ''{'' = count_list code CHR ''{''"
    using ih(2) s(1) by simp
  have c3: "length (xs @ ys) + Suc d = length code" using ih(3) s(1) by simp
  show ?case using c1 c2 c3 keep ih(4) s(3) by simp
qed

lemma take_take_drop: "take i s @ take n (drop i s) @ drop (i + n) s = s"
proof -
  have "take n (drop i s) @ drop n (drop i s) = drop i s" by (rule append_take_drop_id)
  then have "take n (drop i s) @ drop (i + n) s = drop i s" by (simp add: add.commute)
  then have "take i s @ take n (drop i s) @ drop (i + n) s = take i s @ drop i s" by simp
  then show ?thesis by simp
qed

lemma concat_re_split: "concat (re_split_lstlisting s) = s"
proof (induction s rule: re_split_lstlisting.induct)
  case (1 s)
  show ?case
  proof (cases "py_find s begin_lstlisting")
    case None
    then show ?thesis by (subst re_split_lstlisting.simps) simp
  next
    case (Some i)
    show ?thesis
    proof (cases "py_find (drop (i + length begin_lstlisting) s) end_lstlisting")
      case None
      then show ?thesis using Some by (subst re_split_lstlisting.simps) simp
    next
      case (Some j)
      have "concat (re_split_lstlisting s) =
              take i s @ take (length begin_lstlisting + j + length end_lstlisting) (drop i s) @
              concat (re_split_lstlisting
                (drop (i + (length begin_lstlisting + j + length end_lstlisting)) s))"
        using \<open>py_find s begin_lstlisting = Some i\<close> Some
        by (subst re_split_lstlisting.simps) simp
      also have "\<dots> = take i s @ take (length begin_lstlisting + j + length end_lstlisting) (drop i s) @
              drop (i + (length begin_lstlisting + j + length end_lstlisting)) s"
        using "1.IH" [OF \<open>py_find s begin_lstlisting = Some i\<close> Some] by simp
      also have "\<dots> = s"
        by (rule take_take_drop)
      finally show ?thesis .
    qed
  qed
qed

lemma even_parts_sum_le: "sum_list (map f (even_parts xs)) \<le> sum_list (map f xs)" for f :: "'a \<Rightarrow> nat"
  by (induction xs rule: even_parts.induct) auto

lemma count_list_concat: "count_list (concat xss) c = sum_list (map (\<lambda>xs. count_list xs c) xss)"
  by (induction xss) auto

lemma total_close_le: "total_close code \<le> count_list code CHR ''}''"
proof -
  have "total_close code \<le> sum_list (map (\<lambda>p. count_list p CHR ''}'') (re_split_lstlisting code))"
    unfolding total_close_def py_count_char by (rule even_parts_sum_le)
  also have "\<dots> = count_list (concat (re_split_lstlisting code)) CHR ''}''"
    by (simp add: count_list_concat)
  finally show ?thesis by (simp add: concat_re_split)
qed

lemma py_count_zero: "sub \<noteq> [] \<Longrightarrow> py_count s sub = 0 \<longleftrightarrow> \<not> py_in sub s"
  by (induction s) auto

lemma py_count_one:
  assumes "py_count s m = 1" and "m \<noteq> []"
  shows "\<exists>pre post. s = pre @ m @ post \<and> \<not> py_in m pre \<and> \<not> py_in m post"
  using assms(1)
proof (induction s)
  case Nil
  then show ?case using assms(2) by simp
next
  case (Cons c cs)
  show ?case
  proof (cases "prefix m (c # cs)")
    case True
    then obtain post where p: "c # cs = m @ post" by (auto simp: prefix_def)
    then have d: "drop (length m - 1) cs = post" using assms(2) by (cases m) auto
    have "py_count post m = 0" using Cons.prems True assms(2) d by simp
    then have "\<not> py_in m post" using py_count_zero [OF assms(2)] by simp
    moreover have "\<not> py_in m []" using assms(2) by simp
    moreover have "c # cs = [] @ m @ post" using p by simp
    ultimately show ?thesis by blast
  next
    case False
    then have "py_count cs m = 1" using Cons.prems assms(2) by simp
    from Cons.IH [OF this] obtain pre post where
      e: "cs = pre @ m @ post" "\<not> py_in m pre" "\<not> py_in m post" by blast
    have "\<not> prefix m (c # pre)"
    proof
      assume "prefix m (c # pre)"
      then have "prefix m ((c # pre) @ m @ post)" using prefix_prefix by blast
      then show False using False e(1) by simp
    qed
    then have "\<not> py_in m (c # pre)" using e(2) by simp
    moreover have "c # cs = (c # pre) @ m @ post" using e(1) by simp
    ultimately show ?thesis using e(3) by blast
  qed
qed

lemma count_list_replicate: "count_list (replicate n x) y = (if x = y then n else 0)"
  by (induction n) auto

lemma py_times_char: "py_times [c] n = replicate n c"
  by (induction n) (simp_all add: py_times_def)

lemma fix_brace_imbalance_append:
  assumes "total_close code < total_open code" and "\<not> py_in end_document code"
  shows "fst (fix_brace_imbalance code) =
           code @ replicate (total_open code - total_close code) CHR ''}''"
  using assms by (simp add: fix_brace_imbalance_def py_times_char Let_def)

lemma fix_brace_imbalance_insert:
  assumes "total_close code < total_open code" and "py_count code end_document = 1"
  shows "\<exists>pre post. code = pre @ end_document @ post \<and>
           \<not> py_in end_document pre \<and> \<not> py_in end_document post \<and>
           fst (fix_brace_imbalance code) =
             pre @ replicate (total_open code - total_close code) CHR ''}'' @
             newline # end_document @ post"
proof -
  from py_count_one [OF assms(2)] obtain pre post where
    e: "code = pre @ end_document @ post" "\<not> py_in end_document pre"
       "\<not> py_in end_document post" by auto
  have inc: "py_in end_document code" using e(1) py_in_iff by blast
  have "py_replace (pre @ end_document @ post) end_document
          (replicate (total_open code - total_close code) CHR ''}'' @ newline # end_document) =
        pre @ (replicate (total_open code - total_close code) CHR ''}'' @ newline # end_document)
          @ post"
    by (rule py_replace_once [OF e(2,3)]) simp_all
  then have "fst (fix_brace_imbalance code) =
      pre @ replicate (total_open code - total_close code) CHR ''}'' @
      newline # end_document @ post"
    using assms(1) inc e(1) by (simp add: fix_brace_imbalance_def py_times_char Let_def)
  then show ?thesis using e by blast
qed

lemma fix_brace_imbalance_remove:
  assumes "total_open code < total_close code"
  shows "fst (fix_brace_imbalance code) =
           (remove_last_brace ^^ (total_close code - total_open code)) code"
  using assms by (simp add: fix_brace_imbalance_def Let_def)

lemma balanced_after_append:
  assumes "\<not> py_in lst_open code" and "total_close code < total_open code"
    and "\<not> py_in end_document code"
  shows "total_open (fst (fix_brace_imbalance code)) = total_close (fst (fix_brace_imbalance code))"
proof -
  let ?d = "total_open code - total_close code"
  have r: "fst (fix_brace_imbalance code) = code @ replicate ?d CHR ''}''"
    by (rule fix_brace_imbalance_append [OF assms(2,3)])
  have "\<not> py_in lst_open (code @ replicate ?d CHR ''}'' @ [])"
    by (rule py_in_insert) (use assms(1) in \<open>auto simp: set_replicate_conv_if\<close>)
  then have n: "\<not> py_in lst_open (code @ replicate ?d CHR ''}'')" by simp
  show ?thesis
    unfolding r
    using totals_no_listing [OF no_lst_open_no_begin [OF n]]
      totals_no_listing [OF no_lst_open_no_begin [OF assms(1)]] assms(2)
    by (simp add: count_list_replicate)
qed

lemma balanced_after_insert:
  assumes "\<not> py_in lst_open code" and "total_close code < total_open code"
    and "py_count code end_document = 1"
  shows "total_open (fst (fix_brace_imbalance code)) = total_close (fst (fix_brace_imbalance code))"
proof -
  let ?d = "total_open code - total_close code"
  from fix_brace_imbalance_insert [OF assms(2,3)] obtain pre post where
    e: "code = pre @ end_document @ post"
    and r: "fst (fix_brace_imbalance code) =
              pre @ replicate ?d CHR ''}'' @ newline # end_document @ post" by blast
  have "\<not> py_in lst_open (pre @ (replicate ?d CHR ''}'' @ [newline]) @ (end_document @ post))"
    by (rule py_in_insert) (use assms(1) e in \<open>auto simp: set_replicate_conv_if\<close>)
  then have n: "\<not> py_in lst_open (pre @ replicate ?d CHR ''}'' @ newline # end_document @ post)"
    by simp
  have o: "total_open code = count_list code CHR ''{''"
    and c: "total_close code = count_list code CHR ''}''"
    using totals_no_listing [OF no_lst_open_no_begin [OF assms(1)]] by simp_all
  show ?thesis
    unfolding r
    using totals_no_listing [OF no_lst_open_no_begin [OF n]] o c assms(2) e
    by (simp add: count_list_replicate)
qed

lemma balanced_after_remove:
  assumes "\<not> py_in lst_open code" and "total_open code < total_close code"
  shows "total_open (fst (fix_brace_imbalance code)) = total_close (fst (fix_brace_imbalance code))"
proof -
  let ?d = "total_close code - total_open code"
  have o: "total_open code = count_list code CHR ''{''"
    and c: "total_close code = count_list code CHR ''}''"
    using totals_no_listing [OF no_lst_open_no_begin [OF assms(1)]] by simp_all
  have le: "?d \<le> count_list code CHR ''}''" using c by simp
  from remove_last_brace_iter [OF le] no_lst_open_no_begin [OF assms(1)] have
    it: "count_list ((remove_last_brace ^^ ?d) code) CHR ''}'' + ?d = count_list code CHR ''}''"
        "count_list ((remove_last_brace ^^ ?d) code) CHR ''{'' = count_list code CHR ''{''"
        "\<not> py_in begin_lstlisting ((remove_last_brace ^^ ?d) code)"
    by simp_all
  show ?thesis
    unfolding fix_brace_imbalance_remove [OF assms(2)]
    using totals_no_listing [OF it(3)] it(1,2) o c assms(2)
    by simp
qed

text \<open>
  What the rule does when the end marker is absent or occurs once, and when closing
  braces are in excess; with no text \<open>\begin{lstlisting\<close> in the document the counts
  outside the code listings are equal afterwards.
\<close>

lemma brace_rule_single_marker:
  "(total_close code < total_open code \<and> \<not> py_in end_document code \<longrightarrow>
      fst (fix_brace_imbalance code) =
        code @ replicate (total_open code - total_close code) CHR ''}'') \<and>
   (total_close code < total_open code \<and> py_count code end_document = 1 \<longrightarrow>
      (\<exists>pre post. code = pre @ end_document @ post \<and>
         \<not> py_in end_document pre \<and> \<not> py_in end_document post \<and>
         fst (fix_brace_imbalance code) =
           pre @ replicate (total_open code - total_close code) CHR ''}'' @
           newline # end_document @ post)) \<and>
   (total_open code < total_close code \<longrightarrow>
      fst (fix_brace_imbalance code) =
        (remove_last_brace ^^ (total_close code - total_open code)) code \<and>
      count_list (fst (fix_brace_imbalance code)) CHR ''}'' +
        (total_close code - total_open code) = count_list code CHR ''}'' \<and>
      count_list (fst (fix_brace_imbalance code)) CHR ''{'' = count_list code CHR ''{'') \<and>
   (\<not> py_in lst_open code \<and>
    (total_close code < total_open code \<longrightarrow> py_count code end_document \<le> 1) \<longrightarrow>
      total_open (fst (fix_brace_imbalance code)) =
      total_close (fst (fix_brace_imbalance code)))"
proof (intro conjI impI)
  assume "total_close code < total_open code \<and> \<not> py_in end_document code"
  then show "fst (fix_brace_imbalance code) =
      code @ replicate (total_open code - total_close code) CHR ''}''"
    using fix_brace_imbalance_append by blast
next
  assume "total_close code < total_open code \<and> py_count code end_document = 1"
  then show "\<exists>pre post. code = pre @ end_document @ post \<and>
         \<not> py_in end_document pre \<and> \<not> py_in end_document post \<and>
         fst (fix_brace_imbalance code) =
           pre @ replicate (total_open code - total_close code) CHR ''}'' @
           newline # end_document @ post"
    using fix_brace_imbalance_insert by blast
next
  assume a: "total_open code < total_close code"
  show "fst (fix_brace_imbalance code) =
      (remove_last_brace ^^ (total_close code - total_open code)) code"
    by (rule fix_brace_imbalance_remove [OF a])
  have le: "total_close code - total_open code \<le> count_list code CHR ''}''"
    using total_close_le [of code] by simp
  show "count_list (fst (fix_brace_imbalance code)) CHR ''}'' +
        (total_close code - total_open code) = count_list code CHR ''}''"
    unfolding fix_brace_imbalance_remove [OF a] using remove_last_brace_iter [OF le] by simp
  show "count_list (fst (fix_brace_imbalance code)) CHR ''{'' = count_list code CHR ''{''"
    unfolding fix_brace_imbalance_remove [OF a] using remove_last_brace_iter [OF le] by simp
next
  assume a: "\<not> py_in lst_open code \<and>
    (total_close code < total_open code \<longrightarrow> py_count code end_document \<le> 1)"
  consider "total_close code < total_open code" "py_count code end_document = 0"
    | "total_close code < total_open code" "py_count code end_document = 1"
    | "total_open code < total_close code"
    | "total_open code = total_close code"
    using a by linarith
  then show "total_open (fst (fix_brace_imbalance code)) =
      total_close (fst (fix_brace_imbalance code))"
  proof cases
    case 1
    then have "\<not> py_in end_document code" using py_count_zero [of end_document code] by simp
    then show ?thesis using balanced_after_append a 1(1) by blast
  next
    case 2
    then show ?thesis using balanced_after_insert a by blast
  next
    case 3
    then show ?thesis using balanced_after_remove a by blast
  next
    case 4
    then show ?thesis by (simp add: fix_brace_imbalance_def)
  qed
qed

lemma brace_rule_single_marker_example:
  "total_close one_open_doc < total_open one_open_doc \<and>
   py_count one_open_doc end_document = 1 \<and>
   \<not> py_in lst_open one_open_doc \<and>
   total_open (fst (fix_brace_imbalance one_open_doc)) =
     total_close (fst (fix_brace_imbalance one_open_doc))"
proof -
  have h1: "total_close one_open_doc < total_open one_open_doc"
    unfolding one_open_doc_def by code_simp
  have h2: "py_count one_open_doc end_document = 1" unfolding one_open_doc_def by code_simp
  have h3: "\<not> py_in lst_open one_open_doc" unfolding one_open_doc_def by code_simp
  show ?thesis using brace_rule_single_marker [of one_open_doc] h1 h2 h3 by simp
qed

text \<open>
  C4. With \<open>O > C\<close> the rule is to put exactly \<open>O - C\<close> closing braces before the
  end marker and leave the counts equal. The code does so with \<open>str.replace\<close>, which
  puts them before every end marker: on a document with one opening brace too many and
  two end markers it adds two closing braces, records \<open>Added 1 missing closing
  brace(s)\<close>, and leaves 5 opening and 6 closing braces.
\<close>

theorem brace_rule_doubles_closers:
  "total_open two_markers_doc = 5 \<and> total_close two_markers_doc = 4 \<and>
   fix_brace_imbalance two_markers_doc =
     (documentclass @ ''{article}'' @ begin_document @ ''{}'' @ newline # end_document @
      ''}'' @ newline # end_document,
      [''Added 1 missing closing brace(s)'']) \<and>
   total_open (fst (fix_brace_imbalance two_markers_doc)) = 5 \<and>
   total_close (fst (fix_brace_imbalance two_markers_doc)) = 6"
  unfolding two_markers_doc_def by code_simp

text \<open>
  The counts can differ after a removal too: the last closing brace of the document
  below ends the code listing, and removing it turns the listing into counted text.
\<close>

lemma brace_rule_listing_example:
  "total_open listing_last_doc = 0 \<and> total_close listing_last_doc = 1 \<and>
   fst (fix_brace_imbalance listing_last_doc) =
     ''}'' @ begin_lstlisting @ ''{'' @ bslash # ''end{lstlisting'' \<and>
   total_open (fst (fix_brace_imbalance listing_last_doc)) = 3 \<and>
   total_close (fst (fix_brace_imbalance listing_last_doc)) = 2"
  unfolding listing_last_doc_def by code_simp

end
